theory Spec2Isabelle
  imports Main "HOL-Library.Word"
begin

section \<open>Sensor descriptors and the registry\<close>

text \<open>
  The sensor engine of \<^verbatim>\<open>src/DCCTimerGiga.cpp\<close> (the part after the timer code:
  \<^verbatim>\<open>Sensor::checkAll\<close>, \<^verbatim>\<open>inputChangeCallback\<close>, \<^verbatim>\<open>create\<close>, \<^verbatim>\<open>setState\<close>,
  \<^verbatim>\<open>get\<close>, \<^verbatim>\<open>remove\<close>, \<^verbatim>\<open>load\<close>, \<^verbatim>\<open>store\<close>).

  The header \<^verbatim>\<open>Sensors.h\<close> is not part of the source at hand, so the constants it
  declares (\<^verbatim>\<open>VPIN_MAX\<close>, \<^verbatim>\<open>VPIN_NONE\<close>, \<^verbatim>\<open>minReadCount\<close>, \<^verbatim>\<open>cycleInterval\<close>,
  the compile-time switch \<^verbatim>\<open>USE_NOTIFY\<close>, \<^verbatim>\<open>sizeof(SensorData)\<close>) are parameters,
  collected in the record \<open>config\<close>. Pins are natural numbers, sensor ids are
  integers, the debounce counter \<^verbatim>\<open>latchDelay\<close> is a natural number (the code only
  decrements it when it is positive), and \<^verbatim>\<open>pullUp\<close> holds the \<^verbatim>\<open>int\<close> that
  \<^verbatim>\<open>create\<close> is given (the width of the field is declared in the header).

  A \<^verbatim>\<open>Sensor *\<close> is an address or \<^verbatim>\<open>NULL\<close> (\<open>None\<close>); the heap maps the addresses
  of allocated descriptors to their contents.
\<close>

type_synonym VPIN = nat
type_synonym addr = nat

record SensorData =
  snum :: int
  pin :: VPIN
  pullUp :: int

record Sensor =
  data :: SensorData
  active :: bool
  inputState :: bool
  latchDelay :: nat
  pollingRequired :: bool
  nextSensor :: "addr option"

record config =
  VPIN_MAX :: VPIN
  VPIN_NONE :: VPIN
  minReadCount :: nat
  cycleInterval :: "32 word"
  USE_NOTIFY :: bool
  hasCallback :: "VPIN \<Rightarrow> bool"
  sizeofData :: nat

text \<open>
  The static members of \<^verbatim>\<open>Sensor\<close> and the collaborators the code talks to.
  \<open>broadcastSensor_calls\<close> and \<open>configureInput_calls\<close> log the calls made to
  \<^verbatim>\<open>CommandDistributor::broadcastSensor\<close> and \<^verbatim>\<open>IODevice::configureInput\<close>, oldest
  first. \<open>nSensors\<close>, \<open>eeAddress\<close> and \<open>EEPROM\<close> are the persistent store (see the
  section on persistence).
\<close>

record state =
  heap :: "addr \<Rightarrow> Sensor option"
  firstSensor :: "addr option"
  readingSensor :: "addr option"
  lastReadCycle :: "32 word"
  firstPollSensor :: "addr option"
  lastSensor :: "addr option"
  inputChangeCallbackRegistered :: bool
  broadcastSensor_calls :: "(int \<times> bool) list"
  configureInput_calls :: "(VPIN \<times> int) list"
  nSensors :: "16 word"
  eeAddress :: nat
  EEPROM :: "nat \<Rightarrow> SensorData"

section \<open>The scan scheduler: \<^verbatim>\<open>Sensor::checkAll\<close>\<close>

text \<open>
  The body of the \<^verbatim>\<open>while\<close> loop on one descriptor (source lines 319 to 337):
  poll the pin if the descriptor is polled and has a pin, then debounce. The second
  component is the transition handed to \<^verbatim>\<open>broadcastSensor\<close>, if any; the loop sets
  \<^verbatim>\<open>pause\<close> exactly when there is one.
\<close>

definition checkAll_body ::
  "config \<Rightarrow> (VPIN \<Rightarrow> bool) \<Rightarrow> Sensor \<Rightarrow> Sensor \<times> (int \<times> bool) option" where
  "checkAll_body cfg IODevice_read s =
     (let s1 = (if pollingRequired s \<and> pin (data s) \<noteq> VPIN_NONE cfg
                then s\<lparr>inputState := IODevice_read (pin (data s))\<rparr> else s)
      in if inputState s1 = active s1 then (s1\<lparr>latchDelay := minReadCount cfg\<rparr>, None)
         else if latchDelay s1 > 0 then (s1\<lparr>latchDelay := latchDelay s1 - 1\<rparr>, None)
         else (s1\<lparr>active := inputState s1, latchDelay := minReadCount cfg\<rparr>,
               Some (snum (data s1), inputState s1)))"

text \<open>
  One iteration of the loop on the state: the descriptor under the cursor is read from
  the heap (\<open>None\<close> when the cursor does not point to an allocated descriptor, which in
  the source is a wild read), updated in place, a transition is broadcast, and the
  cursor moves to the successor. The boolean says whether a transition was broadcast.
\<close>

definition checkAll_step ::
  "config \<Rightarrow> (VPIN \<Rightarrow> bool) \<Rightarrow> addr \<Rightarrow> state \<Rightarrow> (state \<times> bool) option" where
  "checkAll_step cfg IODevice_read a st =
     (case heap st a of
        None \<Rightarrow> None
      | Some s \<Rightarrow>
          (let (s', rep) = checkAll_body cfg IODevice_read s
           in Some (st\<lparr>heap := (heap st)(a \<mapsto> s'),
                       readingSensor := nextSensor s',
                       broadcastSensor_calls := broadcastSensor_calls st @
                          (case rep of None \<Rightarrow> [] | Some r \<Rightarrow> [r])\<rparr>,
                    \<not> Option.is_none rep)))"

text \<open>
  The loop \<^verbatim>\<open>while (readingSensor != NULL && !pause)\<close> with its local variables
  \<^verbatim>\<open>sensorCount\<close> (a \<^verbatim>\<open>uint16_t\<close> that starts at 0 and stops the loop at 16, so it never
  wraps) and \<^verbatim>\<open>pause\<close>. The result carries the final \<^verbatim>\<open>sensorCount\<close>, the number of
  descriptors scanned.
\<close>

function checkAll_loop ::
  "config \<Rightarrow> (VPIN \<Rightarrow> bool) \<Rightarrow> nat \<Rightarrow> bool \<Rightarrow> state \<Rightarrow> (nat \<times> state) option" where
  "checkAll_loop cfg IODevice_read sensorCount pause st =
     (case readingSensor st of
        None \<Rightarrow> Some (sensorCount, st)
      | Some a \<Rightarrow>
          if pause then Some (sensorCount, st)
          else (case checkAll_step cfg IODevice_read a st of
                  None \<Rightarrow> None
                | Some (st', reported) \<Rightarrow>
                    checkAll_loop cfg IODevice_read (sensorCount + 1)
                      (reported \<or> sensorCount + 1 \<ge> 16) st'))"
  by pat_completeness auto
termination
  by (relation "measure (\<lambda>(cfg, rd, sensorCount, pause, st).
                   if pause then 0 else 1 + (16 - sensorCount))") auto

text \<open>
  \<^verbatim>\<open>Sensor::checkAll\<close>. \<open>thisTime\<close> is what \<^verbatim>\<open>micros()\<close> returns (an
  \<^verbatim>\<open>unsigned long\<close>, 32 bits on the boards this code runs on; the subtraction wraps),
  \<open>IODevice_read\<close> what the pins read during this invocation.
\<close>

definition checkAll ::
  "config \<Rightarrow> 32 word \<Rightarrow> (VPIN \<Rightarrow> bool) \<Rightarrow> state \<Rightarrow> (nat \<times> state) option" where
  "checkAll cfg thisTime IODevice_read st0 =
     (let st = (if USE_NOTIFY cfg then st0\<lparr>inputChangeCallbackRegistered := True\<rparr> else st0)
      in if firstSensor st = None then Some (0, st)
         else
           (let st1 =
                 (if readingSensor st = None then
                    (if thisTime - lastReadCycle st \<ge> cycleInterval cfg
                     then st\<lparr>readingSensor := firstSensor st, lastReadCycle := thisTime\<rparr>
                     else st)
                  else st)
            in checkAll_loop cfg IODevice_read 0 False st1))"

text \<open>
  A sequence of invocations, each with its own clock reading and pin levels; the
  result lists the number of descriptors each invocation scanned.
\<close>

fun checkAll_seq ::
  "config \<Rightarrow> (32 word \<times> (VPIN \<Rightarrow> bool)) list \<Rightarrow> state \<Rightarrow> (nat list \<times> state) option" where
  "checkAll_seq cfg [] st = Some ([], st)"
| "checkAll_seq cfg ((thisTime, IODevice_read) # calls) st =
     (case checkAll cfg thisTime IODevice_read st of
        None \<Rightarrow> None
      | Some (n, st1) \<Rightarrow>
          (case checkAll_seq cfg calls st1 of
             None \<Rightarrow> None
           | Some (ns, st2) \<Rightarrow> Some (n # ns, st2)))"

text \<open>
  The same sequence with what can be observed of each invocation: its clock reading,
  whether it found the cursor idle, and the number of descriptors it scanned. An
  invocation that finds the cursor idle and scans has started a cycle.
  \<open>gated cfg lastStart tr\<close>: in the trace \<open>tr\<close>, every invocation that starts a cycle
  comes at least \<^verbatim>\<open>cycleInterval\<close> after the one that started the previous cycle
  (after \<open>lastStart\<close>, for the first). \<open>recordedStart lastStart tr\<close> is the time of the
  last invocation of \<open>tr\<close> that started a cycle (\<open>lastStart\<close> if there is none).
\<close>

fun checkAll_trace ::
  "config \<Rightarrow> (32 word \<times> (VPIN \<Rightarrow> bool)) list \<Rightarrow> state \<Rightarrow>
   ((32 word \<times> bool \<times> nat) list \<times> state) option" where
  "checkAll_trace cfg [] st = Some ([], st)"
| "checkAll_trace cfg ((thisTime, IODevice_read) # calls) st =
     (case checkAll cfg thisTime IODevice_read st of
        None \<Rightarrow> None
      | Some (n, st1) \<Rightarrow>
          (case checkAll_trace cfg calls st1 of
             None \<Rightarrow> None
           | Some (tr, st2) \<Rightarrow> Some ((thisTime, readingSensor st = None, n) # tr, st2)))"

fun gated :: "config \<Rightarrow> 32 word \<Rightarrow> (32 word \<times> bool \<times> nat) list \<Rightarrow> bool" where
  "gated cfg lastStart [] = True"
| "gated cfg lastStart ((thisTime, idle, n) # tr) =
     (if idle \<and> n \<noteq> 0
      then cycleInterval cfg \<le> thisTime - lastStart \<and> gated cfg thisTime tr
      else gated cfg lastStart tr)"

fun recordedStart :: "32 word \<Rightarrow> (32 word \<times> bool \<times> nat) list \<Rightarrow> 32 word" where
  "recordedStart lastStart [] = lastStart"
| "recordedStart lastStart ((thisTime, idle, n) # tr) =
     recordedStart (if idle \<and> n \<noteq> 0 then thisTime else lastStart) tr"

text \<open>
  The scan ticks of a single descriptor: tick after tick the loop body runs on it
  and observes the next raw sample of the list, whether the sample comes from polling
  the pin or was written into \<^verbatim>\<open>inputState\<close> beforehand. The result lists what each
  tick broadcast.
\<close>

fun ticks :: "config \<Rightarrow> Sensor \<Rightarrow> bool list \<Rightarrow> Sensor \<times> (int \<times> bool) option list" where
  "ticks cfg s [] = (s, [])"
| "ticks cfg s (b # bs) =
     (let (s1, r) = checkAll_body cfg (\<lambda>p. b) (s\<lparr>inputState := b\<rparr>);
          (s2, rs) = ticks cfg s1 bs
      in (s2, r # rs))"

text \<open>
  The addresses the cursor passes when it follows \<^verbatim>\<open>nextSensor\<close> for at most \<open>k\<close>
  steps from \<open>p\<close>.
\<close>

fun walk :: "(addr \<Rightarrow> Sensor option) \<Rightarrow> addr option \<Rightarrow> nat \<Rightarrow> addr list" where
  "walk h p 0 = []"
| "walk h None (Suc k) = []"
| "walk h (Some a) (Suc k) =
     a # (case h a of None \<Rightarrow> [] | Some s \<Rightarrow> walk h (nextSensor s) k)"

section \<open>The registry: \<^verbatim>\<open>setState\<close>, \<^verbatim>\<open>get\<close>, \<^verbatim>\<open>remove\<close>, \<^verbatim>\<open>create\<close>\<close>

text \<open>\<^verbatim>\<open>Sensor::setState\<close>, an object method: \<open>a\<close> is \<^verbatim>\<open>this\<close>.\<close>

definition setState :: "addr \<Rightarrow> int \<Rightarrow> state \<Rightarrow> state option" where
  "setState a val st =
     (case heap st a of
        None \<Rightarrow> None
      | Some s \<Rightarrow> Some (st\<lparr>heap := (heap st)(a \<mapsto> s\<lparr>inputState := (val \<noteq> 0), latchDelay := 0\<rparr>)\<rparr>))"

text \<open>
  The list traversals follow \<^verbatim>\<open>nextSensor\<close> until \<^verbatim>\<open>NULL\<close>; on a cyclic heap they do
  not return, and on a pointer to unallocated memory the source reads wildly.
  Both are the result \<open>None\<close>.

  \<^verbatim>\<open>Sensor::get\<close>: \<^verbatim>\<open>for(tt=firstSensor;tt!=NULL && tt->data.snum!=n;tt=tt->nextSensor);\<close>
\<close>

partial_function (option) get_loop ::
  "(addr \<Rightarrow> Sensor option) \<Rightarrow> int \<Rightarrow> addr option \<Rightarrow> addr option option" where
  "get_loop h n tt =
     (case tt of
        None \<Rightarrow> Some None
      | Some a \<Rightarrow>
          (case h a of
             None \<Rightarrow> None
           | Some s \<Rightarrow> if snum (data s) \<noteq> n then get_loop h n (nextSensor s) else Some (Some a)))"

definition get :: "int \<Rightarrow> state \<Rightarrow> addr option option" where
  "get n st = get_loop (heap st) n (firstSensor st)"

text \<open>
  The search loop of \<^verbatim>\<open>Sensor::remove\<close> on the pair of \<^verbatim>\<open>pp\<close> (the predecessor) and
  \<^verbatim>\<open>tt\<close>:
  \<^verbatim>\<open>for(tt=firstSensor;tt!=NULL && tt->data.snum!=n;pp=tt,tt=tt->nextSensor);\<close>
\<close>

partial_function (option) remove_loop ::
  "(addr \<Rightarrow> Sensor option) \<Rightarrow> int \<Rightarrow> addr option \<times> addr option \<Rightarrow>
   (addr option \<times> addr option) option" where
  "remove_loop h n pp_tt =
     (case pp_tt of
        (pp, None) \<Rightarrow> Some (pp, None)
      | (pp, Some a) \<Rightarrow>
          (case h a of
             None \<Rightarrow> None
           | Some s \<Rightarrow>
               if snum (data s) \<noteq> n then remove_loop h n (Some a, nextSensor s)
               else Some (pp, Some a)))"

text \<open>
  \<^verbatim>\<open>Sensor::remove\<close>: unlink \<^verbatim>\<open>tt\<close>, repair \<^verbatim>\<open>lastSensor\<close> and \<^verbatim>\<open>firstPollSensor\<close>
  (under \<^verbatim>\<open>USE_NOTIFY\<close>), repair the cursor, free. The search stops at a \<^verbatim>\<open>tt\<close>
  whose id differs from the id of \<^verbatim>\<open>pp\<close>, so \<^verbatim>\<open>tt\<close> is not \<^verbatim>\<open>pp\<close> and
  \<^verbatim>\<open>tt->nextSensor\<close> reads the same before and after the unlinking.
\<close>

definition remove :: "config \<Rightarrow> int \<Rightarrow> state \<Rightarrow> (bool \<times> state) option" where
  "remove cfg n st =
     (case remove_loop (heap st) n (None, firstSensor st) of
        None \<Rightarrow> None
      | Some (pp, None) \<Rightarrow> Some (False, st)
      | Some (pp, Some t) \<Rightarrow>
          (case heap st t of
             None \<Rightarrow> None
           | Some s \<Rightarrow>
               (case (if Some t = firstSensor st
                      then Some (st\<lparr>firstSensor := nextSensor s\<rparr>)
                      else (case pp of
                              None \<Rightarrow> None
                            | Some p \<Rightarrow>
                                (case heap st p of
                                   None \<Rightarrow> None
                                 | Some ps \<Rightarrow>
                                     Some (st\<lparr>heap := (heap st)(p \<mapsto> ps\<lparr>nextSensor := nextSensor s\<rparr>)\<rparr>)))) of
                  None \<Rightarrow> None
                | Some st1 \<Rightarrow>
                    (let st2 = (if USE_NOTIFY cfg \<and> Some t = lastSensor st1
                                then st1\<lparr>lastSensor := pp\<rparr> else st1);
                         st3 = (if USE_NOTIFY cfg \<and> Some t = firstPollSensor st2
                                then st2\<lparr>firstPollSensor := nextSensor s\<rparr> else st2);
                         st4 = (if readingSensor st3 = Some t
                                then st3\<lparr>readingSensor := nextSensor s\<rparr> else st3)
                     in Some (True, st4\<lparr>heap := (heap st4)(t := None)\<rparr>)))))"

text \<open>
  \<^verbatim>\<open>Sensor::create\<close>. \<open>calloc\<close> is the allocator: from the heap as it is, it gives
  the address of the new descriptor or \<^verbatim>\<open>NULL\<close>. The result is the returned pointer.
\<close>

definition create ::
  "config \<Rightarrow> ((addr \<Rightarrow> Sensor option) \<Rightarrow> addr option) \<Rightarrow> int \<Rightarrow> VPIN \<Rightarrow> int \<Rightarrow> state \<Rightarrow>
   (addr option \<times> state) option" where
  "create cfg calloc n p pu st =
     (if p > VPIN_MAX cfg \<and> p \<noteq> VPIN_NONE cfg then Some (None, st)
      else
        (case remove cfg n st of
           None \<Rightarrow> None
         | Some (found, st1) \<Rightarrow>
             (case calloc (heap st1) of
                None \<Rightarrow> Some (None, st1)
              | Some a \<Rightarrow>
                  (let tt = \<lparr>data = \<lparr>snum = n, pin = p, pullUp = pu\<rparr>,
                             active = False, inputState = False,
                             latchDelay = minReadCount cfg,
                             pollingRequired =
                               (if p = VPIN_NONE cfg then False
                                else if USE_NOTIFY cfg \<and> hasCallback cfg p then False
                                else True),
                             nextSensor = firstSensor st1\<rparr>
                   in Some (Some a,
                        st1\<lparr>heap := (heap st1)(a \<mapsto> tt),
                            firstSensor := Some a,
                            configureInput_calls :=
                              (if p \<noteq> VPIN_NONE cfg
                               then configureInput_calls st1 @ [(p, pu)]
                               else configureInput_calls st1)\<rparr>)))))"

section \<open>The change notification bridge: \<^verbatim>\<open>Sensor::inputChangeCallback\<close>\<close>

text \<open>
  Compiled under \<^verbatim>\<open>USE_NOTIFY\<close> only. The search:
  \<^verbatim>\<open>for (tt=firstSensor; tt!=NULL ; tt=tt->nextSensor) { if (tt->data.pin == vpin) break; }\<close>
\<close>

partial_function (option) inputChangeCallback_loop ::
  "(addr \<Rightarrow> Sensor option) \<Rightarrow> VPIN \<Rightarrow> addr option \<Rightarrow> addr option option" where
  "inputChangeCallback_loop h vpin tt =
     (case tt of
        None \<Rightarrow> Some None
      | Some a \<Rightarrow>
          (case h a of
             None \<Rightarrow> None
           | Some s \<Rightarrow>
               if pin (data s) = vpin then Some (Some a)
               else inputChangeCallback_loop h vpin (nextSensor s)))"

definition inputChangeCallback :: "VPIN \<Rightarrow> int \<Rightarrow> state \<Rightarrow> state option" where
  "inputChangeCallback vpin val st =
     (case inputChangeCallback_loop (heap st) vpin (firstSensor st) of
        None \<Rightarrow> None
      | Some None \<Rightarrow> Some st
      | Some (Some a) \<Rightarrow>
          (case heap st a of
             None \<Rightarrow> None
           | Some s \<Rightarrow> Some (st\<lparr>heap := (heap st)(a \<mapsto> s\<lparr>inputState := (val \<noteq> 0)\<rparr>)\<rparr>)))"

section \<open>Persistence: \<^verbatim>\<open>Sensor::store\<close> and \<^verbatim>\<open>Sensor::load\<close>\<close>

text \<open>
  Modelled from the spec: \<^verbatim>\<open>EEStore\<close> and the \<^verbatim>\<open>EEPROM\<close> object, which are not in the
  source at hand. The spec describes a byte region with a header \<^verbatim>\<open>sensorCount: uint16\<close>
  (\<open>nSensors\<close>), followed by fixed-size records holding id, pin and pullUp, at a position
  that the store advances itself. \<open>eeAddress\<close> is that position
  (\<^verbatim>\<open>EEStore::pointer()\<close>), \<^verbatim>\<open>EEStore::advance(n)\<close> adds \<open>n\<close> to it, and
  \<open>EEPROM\<close> gives the record stored at a position: \<^verbatim>\<open>EEPROM.put\<close> writes one,
  \<^verbatim>\<open>EEPROM.get\<close> reads it back. Records are \<open>sizeofData cfg\<close> apart.

  \<^verbatim>\<open>Sensor::store\<close>: the loop \<^verbatim>\<open>while(tt!=NULL)\<close> and the function.
\<close>

partial_function (option) store_loop :: "config \<Rightarrow> addr option \<Rightarrow> state \<Rightarrow> state option" where
  "store_loop cfg tt st =
     (case tt of
        None \<Rightarrow> Some st
      | Some a \<Rightarrow>
          (case heap st a of
             None \<Rightarrow> None
           | Some s \<Rightarrow>
               store_loop cfg (nextSensor s)
                 (st\<lparr>EEPROM := (EEPROM st)(eeAddress st := data s),
                     eeAddress := eeAddress st + sizeofData cfg,
                     nSensors := nSensors st + 1\<rparr>)))"

definition store :: "config \<Rightarrow> state \<Rightarrow> state option" where
  "store cfg st = store_loop cfg (firstSensor st) (st\<lparr>nSensors := 0\<rparr>)"

text \<open>
  \<^verbatim>\<open>Sensor::load\<close>: \<^verbatim>\<open>uint16_t i=nSensors; while(i--) {...}\<close> runs the body \<open>nSensors\<close>
  times; the pointer \<^verbatim>\<open>tt\<close> that \<^verbatim>\<open>create\<close> returns is not used.
\<close>

fun load_loop ::
  "config \<Rightarrow> ((addr \<Rightarrow> Sensor option) \<Rightarrow> addr option) \<Rightarrow> nat \<Rightarrow> state \<Rightarrow> state option" where
  "load_loop cfg calloc 0 st = Some st"
| "load_loop cfg calloc (Suc i) st =
     (let d = EEPROM st (eeAddress st)
      in case create cfg calloc (snum d) (pin d) (pullUp d) st of
           None \<Rightarrow> None
         | Some (tt, st1) \<Rightarrow>
             load_loop cfg calloc i (st1\<lparr>eeAddress := eeAddress st1 + sizeofData cfg\<rparr>))"

definition load ::
  "config \<Rightarrow> ((addr \<Rightarrow> Sensor option) \<Rightarrow> addr option) \<Rightarrow> state \<Rightarrow> state option" where
  "load cfg calloc st = load_loop cfg calloc (unat (nSensors st)) st"

section \<open>Well-formed registries\<close>

text \<open>
  \<open>sensorPath h p as q\<close>: following \<^verbatim>\<open>nextSensor\<close> from \<open>p\<close> passes exactly the allocated
  descriptors at the addresses \<open>as\<close>, in this order, and arrives at \<open>q\<close>.
  \<open>sensorList h p as\<close>: the path ends at \<^verbatim>\<open>NULL\<close>, so \<open>as\<close> is the whole list from \<open>p\<close>.
\<close>

fun sensorPath ::
  "(addr \<Rightarrow> Sensor option) \<Rightarrow> addr option \<Rightarrow> addr list \<Rightarrow> addr option \<Rightarrow> bool" where
  "sensorPath h p [] q = (p = q)"
| "sensorPath h p (a # as) q =
     (p = Some a \<and> (case h a of None \<Rightarrow> False | Some s \<Rightarrow> sensorPath h (nextSensor s) as q))"

definition sensorList :: "(addr \<Rightarrow> Sensor option) \<Rightarrow> addr option \<Rightarrow> addr list \<Rightarrow> bool" where
  "sensorList h p as = sensorPath h p as None"

text \<open>The descriptor at \<open>a\<close> has the id \<open>n\<close>, respectively the pin \<open>vpin\<close>.\<close>

definition hasId :: "(addr \<Rightarrow> Sensor option) \<Rightarrow> int \<Rightarrow> addr \<Rightarrow> bool" where
  "hasId h n a = (case h a of None \<Rightarrow> False | Some s \<Rightarrow> snum (data s) = n)"

definition hasPin :: "(addr \<Rightarrow> Sensor option) \<Rightarrow> VPIN \<Rightarrow> addr \<Rightarrow> bool" where
  "hasPin h vpin a = (case h a of None \<Rightarrow> False | Some s \<Rightarrow> pin (data s) = vpin)"

text \<open>The descriptors stored at the addresses \<open>as\<close>, in this order.\<close>

definition descriptors :: "(addr \<Rightarrow> Sensor option) \<Rightarrow> addr list \<Rightarrow> Sensor list" where
  "descriptors h as = concat (map (\<lambda>a. case h a of None \<Rightarrow> [] | Some s \<Rightarrow> [s]) as)"

text \<open>A descriptor without its list link.\<close>

definition payload :: "Sensor \<Rightarrow> Sensor" where
  "payload s = s\<lparr>nextSensor := None\<rparr>"

text \<open>
  The \<open>k\<close> records stored from the position \<open>start\<close> on, \<open>sz\<close> apart.
\<close>

definition readRecs :: "(nat \<Rightarrow> SensorData) \<Rightarrow> nat \<Rightarrow> nat \<Rightarrow> nat \<Rightarrow> SensorData list" where
  "readRecs ee start sz k = map (\<lambda>i. ee (start + i * sz)) [0..<k]"

text \<open>
  The descriptor that \<^verbatim>\<open>create\<close> makes for the persisted triple \<open>d\<close>, without its
  list link: the runtime fields have their initial values.
\<close>

definition initialSensor :: "config \<Rightarrow> SensorData \<Rightarrow> Sensor" where
  "initialSensor cfg d =
     \<lparr>data = d, active = False, inputState = False, latchDelay = minReadCount cfg,
      pollingRequired =
        (if pin d = VPIN_NONE cfg then False
         else if USE_NOTIFY cfg \<and> hasCallback cfg (pin d) then False else True),
      nextSensor = None\<rparr>"

text \<open>
  Modelled from the spec: the registry reset of the round trip (store, reset, load),
  which is carried out outside the source at hand. The descriptors and the static
  members of \<^verbatim>\<open>Sensor\<close> are as at start-up (no descriptor allocated, empty list, idle
  cursor); the persistent store keeps its contents and its header, and its position is
  back at \<open>start\<close>, where the records begin.
\<close>

definition resetRegistry :: "nat \<Rightarrow> state \<Rightarrow> state" where
  "resetRegistry start st =
     st\<lparr>heap := (\<lambda>a. None), firstSensor := None, readingSensor := None, lastReadCycle := 0,
        firstPollSensor := None, lastSensor := None, inputChangeCallbackRegistered := False,
        eeAddress := start\<rparr>"

section \<open>Example inputs\<close>

definition cfg3 :: config where
  "cfg3 = \<lparr>VPIN_MAX = 32767, VPIN_NONE = 65535, minReadCount = 3, cycleInterval = 10000,
           USE_NOTIFY = False, hasCallback = (\<lambda>p. False), sizeofData = 4\<rparr>"

definition sensor7 :: Sensor where
  "sensor7 = \<lparr>data = \<lparr>snum = 7, pin = 40, pullUp = 1\<rparr>, active = False, inputState = False,
              latchDelay = 3, pollingRequired = True, nextSensor = None\<rparr>"

definition pins_low :: "VPIN \<Rightarrow> bool" where
  "pins_low p = False"

definition pins_high :: "VPIN \<Rightarrow> bool" where
  "pins_high p = True"

text \<open>
  A registry of three polled descriptors, created in the order 7, 8, 9, so that the list
  runs 9, 8, 7 from the head at address 3. Descriptors 9 and 8 have an expired pending
  count. In \<open>reg3\<close> the cursor is at the head, in \<open>reg3_idle\<close> it is idle.
\<close>

definition sensor8 :: Sensor where
  "sensor8 = \<lparr>data = \<lparr>snum = 8, pin = 41, pullUp = 1\<rparr>, active = False, inputState = False,
              latchDelay = 0, pollingRequired = True, nextSensor = Some 1\<rparr>"

definition sensor9 :: Sensor where
  "sensor9 = \<lparr>data = \<lparr>snum = 9, pin = 42, pullUp = 0\<rparr>, active = False, inputState = False,
              latchDelay = 0, pollingRequired = True, nextSensor = Some 2\<rparr>"

definition heap3 :: "addr \<Rightarrow> Sensor option" where
  "heap3 a = (if a = 3 then Some sensor9 else if a = 2 then Some sensor8
              else if a = 1 then Some sensor7 else None)"

definition blank :: "nat \<Rightarrow> SensorData" where
  "blank p = \<lparr>snum = 0, pin = 0, pullUp = 0\<rparr>"

definition reg3 :: state where
  "reg3 = \<lparr>heap = heap3, firstSensor = Some 3, readingSensor = Some 3, lastReadCycle = 0,
           firstPollSensor = None, lastSensor = None, inputChangeCallbackRegistered = False,
           broadcastSensor_calls = [], configureInput_calls = [],
           nSensors = 0, eeAddress = 2, EEPROM = blank\<rparr>"

definition reg3_idle :: state where
  "reg3_idle = reg3\<lparr>readingSensor := None\<rparr>"

text \<open>
  The same registry with a fourth descriptor at the head that has no pin
  (\<^verbatim>\<open>VPIN_NONE\<close>) and is not polled; the cursor is on it.
\<close>

definition sensor20 :: Sensor where
  "sensor20 = \<lparr>data = \<lparr>snum = 20, pin = 65535, pullUp = 0\<rparr>, active = False,
               inputState = False, latchDelay = 3, pollingRequired = False,
               nextSensor = Some 3\<rparr>"

definition reg4 :: state where
  "reg4 = reg3\<lparr>heap := heap3(4 \<mapsto> sensor20), firstSensor := Some 4, readingSensor := Some 4\<rparr>"

definition early_calls :: "(32 word \<times> (VPIN \<Rightarrow> bool)) list" where
  "early_calls = [(5000, pins_high), (9999, pins_high)]"

text \<open>
  A registry of twenty polled descriptors at the addresses 20 (the head) down to 1, all
  stable and inactive, with the cursor idle.
\<close>

definition heap20 :: "addr \<Rightarrow> Sensor option" where
  "heap20 a =
     (if 1 \<le> a \<and> a \<le> 20
      then Some \<lparr>data = \<lparr>snum = int a, pin = a, pullUp = 0\<rparr>, active = False,
                 inputState = False, latchDelay = 3, pollingRequired = True,
                 nextSensor = (if a = 1 then None else Some (a - 1))\<rparr>
      else None)"

definition reg20 :: state where
  "reg20 = reg3\<lparr>heap := heap20, firstSensor := Some 20, readingSensor := None\<rparr>"

text \<open>
  A registry of two descriptors bound to the same pin 50: id 11 (created last, at the
  head, address 2) and id 10 (address 1).
\<close>

definition sensor10 :: Sensor where
  "sensor10 = \<lparr>data = \<lparr>snum = 10, pin = 50, pullUp = 1\<rparr>, active = False,
               inputState = False, latchDelay = 3, pollingRequired = False,
               nextSensor = None\<rparr>"

definition sensor11 :: Sensor where
  "sensor11 = \<lparr>data = \<lparr>snum = 11, pin = 50, pullUp = 1\<rparr>, active = False,
               inputState = False, latchDelay = 3, pollingRequired = False,
               nextSensor = Some 1\<rparr>"

definition heap_pin50 :: "addr \<Rightarrow> Sensor option" where
  "heap_pin50 a = (if a = 2 then Some sensor11 else if a = 1 then Some sensor10 else None)"

definition reg_pin50 :: state where
  "reg_pin50 = reg3\<lparr>heap := heap_pin50, firstSensor := Some 2, readingSensor := None\<rparr>"

text \<open>
  Two allocators: \<open>calloc_small\<close> manages the eight cells at the addresses 1 to 8 and
  gives the first free one; \<open>calloc_fails\<close> is out of memory.
\<close>

definition cell_free :: "(addr \<Rightarrow> Sensor option) \<Rightarrow> addr \<Rightarrow> bool" where
  "cell_free h a = (h a = None)"

definition calloc_small :: "(addr \<Rightarrow> Sensor option) \<Rightarrow> addr option" where
  "calloc_small h = find (cell_free h) [1, 2, 3, 4, 5, 6, 7, 8]"

definition calloc_fails :: "(addr \<Rightarrow> Sensor option) \<Rightarrow> addr option" where
  "calloc_fails h = None"

text \<open>
  Three invocations from \<open>reg3_idle\<close>: the first starts a cycle, the second comes one
  microsecond later, the third a full interval after the first.
\<close>

definition late_calls :: "(32 word \<times> (VPIN \<Rightarrow> bool)) list" where
  "late_calls = [(20000, pins_low), (20001, pins_low), (30000, pins_low)]"

text \<open>
  The registry \<open>reg3\<close> with the unpolled descriptor 20 second in the list, behind a
  polled descriptor 30 at the head; the cursor is idle.
\<close>

definition sensor30 :: Sensor where
  "sensor30 = \<lparr>data = \<lparr>snum = 30, pin = 43, pullUp = 0\<rparr>, active = False,
               inputState = False, latchDelay = 3, pollingRequired = True,
               nextSensor = Some 4\<rparr>"

definition reg5 :: state where
  "reg5 = reg3\<lparr>heap := heap3(4 \<mapsto> sensor20, 5 \<mapsto> sensor30), firstSensor := Some 5,
               readingSensor := None\<rparr>"

section \<open>Properties of the debounce logic and the scan scheduler\<close>

lemma checkAll_body_sample:
  "checkAll_body cfg (\<lambda>p. b) (s\<lparr>inputState := b\<rparr>) =
     (if b = active s then (s\<lparr>inputState := b, latchDelay := minReadCount cfg\<rparr>, None)
      else if latchDelay s > 0 then (s\<lparr>inputState := b, latchDelay := latchDelay s - 1\<rparr>, None)
      else (s\<lparr>inputState := b, active := b, latchDelay := minReadCount cfg\<rparr>,
            Some (snum (data s), b)))"
  by (simp add: checkAll_body_def Let_def)

lemma ticks_append:
  "ticks cfg s (xs @ ys) =
     (let (s1, r1) = ticks cfg s xs; (s2, r2) = ticks cfg s1 ys in (s2, r1 @ r2))"
  by (induction xs arbitrary: s) (simp_all add: split_beta Let_def)

lemma ticks_settling:
  "k \<le> latchDelay s \<Longrightarrow>
   ticks cfg s (replicate k (\<not> active s)) =
     ((if k = 0 then s else s\<lparr>inputState := \<not> active s, latchDelay := latchDelay s - k\<rparr>),
      replicate k None)"
proof (induction k arbitrary: s)
  case 0
  then show ?case by simp
next
  case (Suc k)
  let ?s1 = "s\<lparr>inputState := \<not> active s, latchDelay := latchDelay s - 1\<rparr>"
  have body: "checkAll_body cfg (\<lambda>p. \<not> active s) (s\<lparr>inputState := \<not> active s\<rparr>) = (?s1, None)"
    using Suc.prems by (simp add: checkAll_body_def Let_def)
  have "k \<le> latchDelay ?s1" using Suc.prems by simp
  from Suc.IH [OF this] show ?case
    using body Suc.prems by (cases k) (simp_all add: Let_def)
qed

lemma ticks_commit:
  "latchDelay s = 0 \<Longrightarrow>
   ticks cfg s [\<not> active s] =
     (s\<lparr>inputState := \<not> active s, active := \<not> active s, latchDelay := minReadCount cfg\<rparr>,
      [Some (snum (data s), \<not> active s)])"
  by (simp add: checkAll_body_def Let_def)

lemma ticks_stable:
  "ticks cfg s [active s] = (s\<lparr>inputState := active s, latchDelay := minReadCount cfg\<rparr>, [None])"
  by (simp add: checkAll_body_def Let_def)

lemma ticks_threshold_plus_one:
  assumes "latchDelay s = minReadCount cfg"
  shows "ticks cfg s (replicate (Suc (minReadCount cfg)) (\<not> active s)) =
           (s\<lparr>inputState := \<not> active s, active := \<not> active s, latchDelay := minReadCount cfg\<rparr>,
            replicate (minReadCount cfg) None @ [Some (snum (data s), \<not> active s)])"
proof (cases "minReadCount cfg = 0")
  case True
  with assms show ?thesis by (simp add: checkAll_body_def Let_def)
next
  case False
  let ?N = "minReadCount cfg"
  let ?s1 = "s\<lparr>inputState := \<not> active s, latchDelay := 0\<rparr>"
  have settle: "ticks cfg s (replicate ?N (\<not> active s)) = (?s1, replicate ?N None)"
    using ticks_settling [of ?N s cfg] assms False by simp
  have commit: "ticks cfg ?s1 [\<not> active s] =
      (s\<lparr>inputState := \<not> active s, active := \<not> active s, latchDelay := ?N\<rparr>,
       [Some (snum (data s), \<not> active s)])"
    using ticks_commit [of ?s1 cfg] by simp
  have "replicate (Suc ?N) (\<not> active s) = replicate ?N (\<not> active s) @ [\<not> active s]"
    by (simp add: replicate_append_same)
  then show ?thesis
    using settle commit by (simp only: ticks_append Let_def split_conv)
qed

text \<open>
  C1 (as amended). With debounce threshold \<open>N\<close> and the pending counter at \<open>N\<close> (as
  after creation, after a commit and after every tick that matches the committed
  state), the new level is committed at the tick \<open>N + 1\<close> of a run of ticks observing
  the opposite raw sample and at none of the \<open>N\<close> ticks before it. A tick whose raw
  sample equals the committed state resets the pending counter to \<open>N\<close> and commits
  nothing. With threshold 3, committed state false and the samples true, true, false,
  true, true, true, no tick of the six commits; a seventh sample true does.
\<close>

theorem debounce_commits_at_tick_after_threshold:
  assumes "latchDelay s = minReadCount cfg"
  shows "ticks cfg s (replicate (Suc (minReadCount cfg)) (\<not> active s)) =
           (s\<lparr>inputState := \<not> active s, active := \<not> active s, latchDelay := minReadCount cfg\<rparr>,
            replicate (minReadCount cfg) None @ [Some (snum (data s), \<not> active s)])
         \<and> ticks cfg s' [active s'] =
             (s'\<lparr>inputState := active s', latchDelay := minReadCount cfg\<rparr>, [None])
         \<and> (minReadCount cfg = 3 \<and> \<not> active s \<longrightarrow>
              snd (ticks cfg s [True, True, False, True, True, True, True]) =
                [None, None, None, None, None, None, Some (snum (data s), True)])"
proof (intro conjI impI)
  show "ticks cfg s (replicate (Suc (minReadCount cfg)) (\<not> active s)) =
           (s\<lparr>inputState := \<not> active s, active := \<not> active s, latchDelay := minReadCount cfg\<rparr>,
            replicate (minReadCount cfg) None @ [Some (snum (data s), \<not> active s)])"
    using assms by (rule ticks_threshold_plus_one)
  show "ticks cfg s' [active s'] =
          (s'\<lparr>inputState := active s', latchDelay := minReadCount cfg\<rparr>, [None])"
    by (rule ticks_stable)
  assume "minReadCount cfg = 3 \<and> \<not> active s"
  with assms show "snd (ticks cfg s [True, True, False, True, True, True, True]) =
                [None, None, None, None, None, None, Some (snum (data s), True)]"
    by (simp add: checkAll_body_sample Let_def)
qed

theorem debounce_commits_at_tick_after_threshold_witness:
  "latchDelay sensor7 = minReadCount cfg3
   \<and> snd (ticks cfg3 sensor7 (replicate (Suc (minReadCount cfg3)) (\<not> active sensor7))) =
       replicate (minReadCount cfg3) None @ [Some (7, True)]
   \<and> snd (ticks cfg3 sensor7 [True, True, False, True, True, True, True]) =
       [None, None, None, None, None, None, Some (7, True)]"
proof -
  have h: "latchDelay sensor7 = minReadCount cfg3"
    by (simp add: cfg3_def sensor7_def)
  have a: "minReadCount cfg3 = 3 \<and> \<not> active sensor7" and i: "snum (data sensor7) = 7"
    by (simp_all add: cfg3_def sensor7_def)
  from debounce_commits_at_tick_after_threshold [OF h, of sensor7] a i h
  show ?thesis
    by simp
qed

theorem debounce_sixth_tick_counterexample:
  "snd (ticks cfg3 sensor7 [True, True, False, True, True, True]) =
     [None, None, None, None, None, None]"
  by (simp add: cfg3_def sensor7_def checkAll_body_def Let_def)

declare checkAll_loop.simps [simp del]

lemma checkAll_body_keeps:
  "nextSensor (fst (checkAll_body cfg rd s)) = nextSensor s"
  "data (fst (checkAll_body cfg rd s)) = data s"
  by (simp_all add: checkAll_body_def Let_def)

lemma checkAll_body_report:
  "snd (checkAll_body cfg rd s) = Some r \<Longrightarrow>
   r = (snum (data s), active (fst (checkAll_body cfg rd s)))"
  by (auto simp: checkAll_body_def Let_def split: if_splits)

lemma checkAll_stepD:
  assumes "checkAll_step cfg rd a st = Some (st1, reported)"
  obtains s where "heap st a = Some s"
    and "st1 = st\<lparr>heap := (heap st)(a \<mapsto> fst (checkAll_body cfg rd s)),
                   readingSensor := nextSensor s,
                   broadcastSensor_calls := broadcastSensor_calls st @
                     (case snd (checkAll_body cfg rd s) of None \<Rightarrow> [] | Some r \<Rightarrow> [r])\<rparr>"
    and "reported = (snd (checkAll_body cfg rd s) \<noteq> None)"
  using assms
  by (auto simp: checkAll_step_def split_beta Let_def checkAll_body_keeps Option.is_none_def
      split: option.splits)

lemma checkAll_loop_idle:
  "readingSensor st = None \<Longrightarrow> checkAll_loop cfg rd sc pause st = Some (sc, st)"
  by (subst checkAll_loop.simps) simp

lemma checkAll_loop_pause:
  "checkAll_loop cfg rd sc True st = Some (sc, st)"
  by (subst checkAll_loop.simps) (simp split: option.splits)

lemma checkAll_loop_step:
  "readingSensor st = Some a \<Longrightarrow>
   checkAll_loop cfg rd sc False st =
     (case checkAll_step cfg rd a st of
        None \<Rightarrow> None
      | Some (st1, reported) \<Rightarrow>
          checkAll_loop cfg rd (sc + 1) (reported \<or> sc + 1 \<ge> 16) st1)"
  by (subst checkAll_loop.simps) simp

lemma walk_upd_keeps_next:
  "h a = Some s \<Longrightarrow> nextSensor s' = nextSensor s \<Longrightarrow> walk (h(a \<mapsto> s')) p k = walk h p k"
  by (induction h p k rule: walk.induct) (auto split: option.splits)

lemma length_walk: "length (walk h p k) \<le> k"
  by (induction h p k rule: walk.induct) (auto split: option.splits)

lemma walk_mono: "k \<le> m \<Longrightarrow> set (walk h p k) \<subseteq> set (walk h p m)"
proof (induction h p k arbitrary: m rule: walk.induct)
  case (1 h p)
  then show ?case by simp
next
  case (2 h k)
  then show ?case by simp
next
  case (3 h a k)
  then obtain m' where m: "m = Suc m'" and le: "k \<le> m'" by (cases m) auto
  show ?case
  proof (cases "h a")
    case None
    then show ?thesis using m by simp
  next
    case (Some s)
    with 3(1) [OF Some le] m show ?thesis by auto
  qed
qed

lemma checkAll_loop_frame:
  "checkAll_loop cfg rd sc pause st = Some (n, st') \<Longrightarrow> sc < 16 \<or> pause \<Longrightarrow> sc \<le> 16 \<Longrightarrow>
   sc \<le> n \<and> n \<le> 16 \<and>
   (\<forall>b. b \<notin> set (walk (heap st) (readingSensor st) (n - sc)) \<longrightarrow> heap st' b = heap st b)"
proof (induction cfg rd sc pause st arbitrary: n st' rule: checkAll_loop.induct)
  case (1 cfg rd sc pause st)
  show ?case
  proof (cases "readingSensor st")
    case None
    with "1.prems" show ?thesis by (simp add: checkAll_loop_idle)
  next
    case (Some a)
    show ?thesis
    proof (cases pause)
      case True
      with "1.prems" show ?thesis by (simp add: checkAll_loop_pause)
    next
      case False
      with "1.prems" have sc: "sc < 16" by simp
      from "1.prems" Some False obtain st1 reported
        where step: "checkAll_step cfg rd a st = Some (st1, reported)"
          and rest: "checkAll_loop cfg rd (sc + 1) (reported \<or> sc + 1 \<ge> 16) st1 = Some (n, st')"
        by (auto simp: checkAll_loop_step split: option.splits)
      from step obtain s where hs: "heap st a = Some s"
        and st1: "st1 = st\<lparr>heap := (heap st)(a \<mapsto> fst (checkAll_body cfg rd s)),
                   readingSensor := nextSensor s,
                   broadcastSensor_calls := broadcastSensor_calls st @
                     (case snd (checkAll_body cfg rd s) of None \<Rightarrow> [] | Some r \<Rightarrow> [r])\<rparr>"
        by (rule checkAll_stepD)
      have "sc + 1 < 16 \<or> (reported \<or> sc + 1 \<ge> 16)" by arith
      moreover have "sc + 1 \<le> 16" using sc by simp
      ultimately have ih: "sc + 1 \<le> n \<and> n \<le> 16 \<and>
          (\<forall>b. b \<notin> set (walk (heap st1) (readingSensor st1) (n - (sc + 1))) \<longrightarrow>
               heap st' b = heap st1 b)"
        by (rule "1.IH" [OF Some False step refl rest])
      have w1: "walk (heap st1) (readingSensor st1) (n - (sc + 1)) =
                walk (heap st) (nextSensor s) (n - (sc + 1))"
        using st1 hs by (simp add: walk_upd_keeps_next checkAll_body_keeps)
      have w: "walk (heap st) (readingSensor st) (n - sc) =
               a # walk (heap st) (nextSensor s) (n - (sc + 1))"
      proof -
        from ih have "n - sc = Suc (n - (sc + 1))" by arith
        then show ?thesis using Some hs by simp
      qed
      show ?thesis
      proof (intro conjI allI impI)
        show "sc \<le> n" using ih by simp
        show "n \<le> 16" using ih by simp
        fix b assume "b \<notin> set (walk (heap st) (readingSensor st) (n - sc))"
        with w have ba: "b \<noteq> a" and "b \<notin> set (walk (heap st) (nextSensor s) (n - (sc + 1)))"
          by simp_all
        with ih w1 have "heap st' b = heap st1 b" by simp
        with ba st1 show "heap st' b = heap st b" by simp
      qed
    qed
  qed
qed

lemma checkAll_loop_count:
  "checkAll_loop cfg rd sc pause st = Some (n, st') \<Longrightarrow> sc \<le> n"
proof (induction cfg rd sc pause st arbitrary: n st' rule: checkAll_loop.induct)
  case (1 cfg rd sc pause st)
  show ?case
  proof (cases "readingSensor st")
    case None
    with "1.prems" show ?thesis by (simp add: checkAll_loop_idle)
  next
    case (Some a)
    show ?thesis
    proof (cases pause)
      case True
      with "1.prems" show ?thesis by (simp add: checkAll_loop_pause)
    next
      case False
      from "1.prems" Some False obtain st1 reported
        where step: "checkAll_step cfg rd a st = Some (st1, reported)"
          and rest: "checkAll_loop cfg rd (sc + 1) (reported \<or> sc + 1 \<ge> 16) st1 = Some (n, st')"
        by (auto simp: checkAll_loop_step split: option.splits)
      from "1.IH" [OF Some False step refl rest] show ?thesis by simp
    qed
  qed
qed

lemma checkAll_loop_broadcasts:
  "checkAll_loop cfg rd sc pause st = Some (n, st') \<Longrightarrow>
   \<exists>bs. broadcastSensor_calls st' = broadcastSensor_calls st @ bs \<and> length bs \<le> 1 \<and>
        (\<forall>r. bs = [r] \<longrightarrow>
           (\<exists>a s. walk (heap st) (readingSensor st) (n - sc) \<noteq> [] \<and>
                  a = last (walk (heap st) (readingSensor st) (n - sc)) \<and>
                  heap st' a = Some s \<and> readingSensor st' = nextSensor s \<and>
                  r = (snum (data s), active s)))"
proof (induction cfg rd sc pause st arbitrary: n st' rule: checkAll_loop.induct)
  case (1 cfg rd sc pause st)
  show ?case
  proof (cases "readingSensor st")
    case None
    with "1.prems" show ?thesis by (simp add: checkAll_loop_idle)
  next
    case (Some a)
    show ?thesis
    proof (cases pause)
      case True
      with "1.prems" show ?thesis by (simp add: checkAll_loop_pause)
    next
      case False
      from "1.prems" Some False obtain st1 reported
        where step: "checkAll_step cfg rd a st = Some (st1, reported)"
          and rest: "checkAll_loop cfg rd (sc + 1) (reported \<or> sc + 1 \<ge> 16) st1 = Some (n, st')"
        by (auto simp: checkAll_loop_step split: option.splits)
      from step obtain s where hs: "heap st a = Some s"
        and st1: "st1 = st\<lparr>heap := (heap st)(a \<mapsto> fst (checkAll_body cfg rd s)),
                   readingSensor := nextSensor s,
                   broadcastSensor_calls := broadcastSensor_calls st @
                     (case snd (checkAll_body cfg rd s) of None \<Rightarrow> [] | Some r \<Rightarrow> [r])\<rparr>"
        and rep: "reported = (snd (checkAll_body cfg rd s) \<noteq> None)"
        by (rule checkAll_stepD)
      from rest have le: "sc + 1 \<le> n" by (rule checkAll_loop_count)
      then have suc: "n - sc = Suc (n - (sc + 1))" by arith
      have w1: "walk (heap st1) (readingSensor st1) (n - (sc + 1)) =
                walk (heap st) (nextSensor s) (n - (sc + 1))"
        using st1 hs by (simp add: walk_upd_keeps_next checkAll_body_keeps)
      have w: "walk (heap st) (readingSensor st) (n - sc) =
               a # walk (heap st) (nextSensor s) (n - (sc + 1))"
        using Some hs suc by simp
      show ?thesis
      proof (cases reported)
        case True
        with rest have fin: "st' = st1" "n = sc + 1" by (simp_all add: checkAll_loop_pause)
        from True rep obtain r where r: "snd (checkAll_body cfg rd s) = Some r" by auto
        from fin w have "walk (heap st) (readingSensor st) (n - sc) = [a]" by simp
        with fin st1 r checkAll_body_report [OF r] show ?thesis
          by (auto simp: checkAll_body_keeps)
      next
        case no: False
        with rep have "snd (checkAll_body cfg rd s) = None" by blast
        with st1 have same: "broadcastSensor_calls st1 = broadcastSensor_calls st" by simp
        from "1.IH" [OF Some False step refl rest]
        obtain bs where bs: "broadcastSensor_calls st' = broadcastSensor_calls st1 @ bs"
          and len: "length bs \<le> 1"
          and one: "\<forall>r. bs = [r] \<longrightarrow>
           (\<exists>a s. walk (heap st1) (readingSensor st1) (n - (sc + 1)) \<noteq> [] \<and>
                  a = last (walk (heap st1) (readingSensor st1) (n - (sc + 1))) \<and>
                  heap st' a = Some s \<and> readingSensor st' = nextSensor s \<and>
                  r = (snum (data s), active s))"
          by blast
        have "\<forall>r. bs = [r] \<longrightarrow>
           (\<exists>a s. walk (heap st) (readingSensor st) (n - sc) \<noteq> [] \<and>
                  a = last (walk (heap st) (readingSensor st) (n - sc)) \<and>
                  heap st' a = Some s \<and> readingSensor st' = nextSensor s \<and>
                  r = (snum (data s), active s))"
          using one unfolding w w1 by auto
        with bs len same show ?thesis by auto
      qed
    qed
  qed
qed

lemma checkAll_idle_early:
  assumes "readingSensor st = None" and "\<not> cycleInterval cfg \<le> thisTime - lastReadCycle st"
  shows "checkAll cfg thisTime rd st =
           Some (0, if USE_NOTIFY cfg then st\<lparr>inputChangeCallbackRegistered := True\<rparr> else st)"
  using assms by (simp add: checkAll_def Let_def checkAll_loop_idle)

lemmas example_defs = cfg3_def sensor7_def sensor8_def sensor9_def sensor20_def heap3_def
  blank_def reg3_def reg3_idle_def reg4_def heap20_def reg20_def early_calls_def pins_low_def pins_high_def

lemmas checkAll_eval = checkAll_def checkAll_loop_step checkAll_loop_pause checkAll_loop_idle
  checkAll_step_def checkAll_body_def Let_def

lemma checkAll_entry:
  "checkAll cfg thisTime rd st = Some (n, st') \<Longrightarrow>
   (n = 0 \<and> heap st' = heap st \<and> broadcastSensor_calls st' = broadcastSensor_calls st) \<or>
   (\<exists>st1. checkAll_loop cfg rd 0 False st1 = Some (n, st') \<and> heap st1 = heap st \<and>
          broadcastSensor_calls st1 = broadcastSensor_calls st \<and>
          readingSensor st1 =
            (if readingSensor st = None then firstSensor st else readingSensor st))"
  unfolding checkAll_def Let_def
  by (auto simp: checkAll_loop_idle split: if_splits)

text \<open>
  C3. Whatever the registry, one invocation of \<^verbatim>\<open>checkAll\<close> hands at most one
  transition to \<^verbatim>\<open>broadcastSensor\<close>. When it hands one over, the descriptor that
  committed (whose id and new state were broadcast) is the last of the descriptors
  scanned, and the cursor is left on its successor: no descriptor after it was scanned
  in this invocation.
\<close>

theorem checkAll_broadcasts_at_most_once:
  assumes "checkAll cfg thisTime rd st = Some (n, st')"
  shows "\<exists>bs. broadcastSensor_calls st' = broadcastSensor_calls st @ bs \<and> length bs \<le> 1 \<and>
           (\<forall>r. bs = [r] \<longrightarrow>
              (\<exists>a s. walk (heap st) (if readingSensor st = None then firstSensor st
                                      else readingSensor st) n \<noteq> [] \<and>
                     a = last (walk (heap st) (if readingSensor st = None then firstSensor st
                                               else readingSensor st) n) \<and>
                     heap st' a = Some s \<and> readingSensor st' = nextSensor s \<and>
                     r = (snum (data s), active s)))"
  using checkAll_entry [OF assms]
proof
  assume "n = 0 \<and> heap st' = heap st \<and> broadcastSensor_calls st' = broadcastSensor_calls st"
  then show ?thesis by simp
next
  assume "\<exists>st1. checkAll_loop cfg rd 0 False st1 = Some (n, st') \<and> heap st1 = heap st \<and>
          broadcastSensor_calls st1 = broadcastSensor_calls st \<and>
          readingSensor st1 =
            (if readingSensor st = None then firstSensor st else readingSensor st)"
  then obtain st1 where "checkAll_loop cfg rd 0 False st1 = Some (n, st')"
    and "broadcastSensor_calls st1 = broadcastSensor_calls st" and "heap st1 = heap st"
    and "readingSensor st1 =
            (if readingSensor st = None then firstSensor st else readingSensor st)"
    by blast
  with checkAll_loop_broadcasts [of cfg rd 0 False st1 n st'] show ?thesis by simp
qed

theorem checkAll_broadcasts_at_most_once_witness:
  "\<exists>n st'. checkAll cfg3 0 pins_high reg3 = Some (n, st') \<and> n = 1 \<and>
     broadcastSensor_calls st' = broadcastSensor_calls reg3 @ [(9, True)] \<and>
     map_option active (heap st' 2) = Some False \<and>
     map_option latchDelay (heap reg3 2) = Some 0 \<and>
     (\<exists>bs. broadcastSensor_calls st' = broadcastSensor_calls reg3 @ bs \<and> length bs \<le> 1)"
proof -
  have "\<exists>n st'. checkAll cfg3 0 pins_high reg3 = Some (n, st') \<and> n = 1 \<and>
      broadcastSensor_calls st' = broadcastSensor_calls reg3 @ [(9, True)] \<and>
      map_option active (heap st' 2) = Some False"
    by (simp add: example_defs checkAll_eval)
  then obtain n st' where run: "checkAll cfg3 0 pins_high reg3 = Some (n, st')"
    and n: "n = 1"
    and out: "broadcastSensor_calls st' = broadcastSensor_calls reg3 @ [(9, True)]"
    and other: "map_option active (heap st' 2) = Some False"
    by blast
  have pending: "map_option latchDelay (heap reg3 2) = Some 0"
    by (simp add: example_defs)
  from checkAll_broadcasts_at_most_once [OF run]
  have "\<exists>bs. broadcastSensor_calls st' = broadcastSensor_calls reg3 @ bs \<and> length bs \<le> 1"
    by blast
  with run n out other pending show ?thesis by blast
qed

text \<open>
  C4. Whatever the registry, one invocation of \<^verbatim>\<open>checkAll\<close> scans at most 16
  descriptors: the count it reaches is at most 16, and every descriptor that is not
  among the first 16 on the path from the entry cursor (the head of the list when the
  cursor is idle) is the same after the invocation as before.
\<close>

theorem checkAll_scans_at_most_16:
  assumes "checkAll cfg thisTime rd st = Some (n, st')"
  shows "n \<le> 16 \<and>
         length (walk (heap st)
                   (if readingSensor st = None then firstSensor st else readingSensor st) 16) \<le> 16 \<and>
         (\<forall>b. b \<notin> set (walk (heap st)
                         (if readingSensor st = None then firstSensor st else readingSensor st) 16)
              \<longrightarrow> heap st' b = heap st b)"
  using checkAll_entry [OF assms]
proof
  assume "n = 0 \<and> heap st' = heap st \<and> broadcastSensor_calls st' = broadcastSensor_calls st"
  then show ?thesis by (simp add: length_walk)
next
  let ?c = "if readingSensor st = None then firstSensor st else readingSensor st"
  assume "\<exists>st1. checkAll_loop cfg rd 0 False st1 = Some (n, st') \<and> heap st1 = heap st \<and>
          broadcastSensor_calls st1 = broadcastSensor_calls st \<and> readingSensor st1 = ?c"
  then obtain st1 where run: "checkAll_loop cfg rd 0 False st1 = Some (n, st')"
    and h: "heap st1 = heap st" and c: "readingSensor st1 = ?c" by blast
  from checkAll_loop_frame [OF run] h c
  have n: "n \<le> 16" and fr: "\<forall>b. b \<notin> set (walk (heap st) ?c n) \<longrightarrow> heap st' b = heap st b"
    by simp_all
  from walk_mono [OF n] fr
  have "\<forall>b. b \<notin> set (walk (heap st) ?c 16) \<longrightarrow> heap st' b = heap st b" by blast
  with n show ?thesis by (simp add: length_walk)
qed

theorem checkAll_scans_at_most_16_witness:
  "\<exists>n st'. checkAll cfg3 20000 pins_low reg20 = Some (n, st') \<and> n = 16 \<and>
     readingSensor st' = Some 4 \<and> heap st' 4 = heap reg20 4 \<and> heap st' 1 = heap reg20 1"
proof -
  have "\<exists>n st'. checkAll cfg3 20000 pins_low reg20 = Some (n, st') \<and> n = 16 \<and>
      readingSensor st' = Some 4"
    by (simp add: example_defs checkAll_eval)
  then obtain n st' where run: "checkAll cfg3 20000 pins_low reg20 = Some (n, st')"
    and n: "n = 16" and c: "readingSensor st' = Some 4"
    by blast
  have w: "walk (heap reg20) (if readingSensor reg20 = None then firstSensor reg20
                              else readingSensor reg20) 16 =
           [20, 19, 18, 17, 16, 15, 14, 13, 12, 11, 10, 9, 8, 7, 6, 5]"
    by (simp add: reg20_def heap20_def eval_nat_numeral)
  from checkAll_scans_at_most_16 [OF run]
  have "heap st' 4 = heap reg20 4" and "heap st' 1 = heap reg20 1"
    unfolding w by simp_all
  with run n c show ?thesis by blast
qed

lemma checkAll_seq_early:
  "readingSensor st = None \<Longrightarrow>
   \<forall>c \<in> set calls. fst c - lastReadCycle st < cycleInterval cfg \<Longrightarrow>
   checkAll_seq cfg calls st =
     Some (replicate (length calls) 0,
           if USE_NOTIFY cfg \<and> calls \<noteq> []
           then st\<lparr>inputChangeCallbackRegistered := True\<rparr> else st)"
proof (induction calls arbitrary: st)
  case Nil
  then show ?case by simp
next
  case (Cons c calls)
  obtain t rd where c: "c = (t, rd)" by (cases c)
  let ?st1 = "if USE_NOTIFY cfg then st\<lparr>inputChangeCallbackRegistered := True\<rparr> else st"
  from Cons.prems c have "\<not> cycleInterval cfg \<le> t - lastReadCycle st" by auto
  with Cons.prems have one: "checkAll cfg t rd st = Some (0, ?st1)"
    by (simp add: checkAll_idle_early)
  have "readingSensor ?st1 = None" and "lastReadCycle ?st1 = lastReadCycle st"
    using Cons.prems by simp_all
  with Cons.prems have "checkAll_seq cfg calls ?st1 =
     Some (replicate (length calls) 0,
           if USE_NOTIFY cfg \<and> calls \<noteq> []
           then ?st1\<lparr>inputChangeCallbackRegistered := True\<rparr> else ?st1)"
    by (intro Cons.IH) simp_all
  with one c show ?case by simp
qed

lemma checkAll_loop_lastReadCycle:
  "checkAll_loop cfg rd sc pause st = Some (n, st') \<Longrightarrow> lastReadCycle st' = lastReadCycle st"
proof (induction cfg rd sc pause st arbitrary: n st' rule: checkAll_loop.induct)
  case (1 cfg rd sc pause st)
  show ?case
  proof (cases "readingSensor st")
    case None
    with "1.prems" show ?thesis by (simp add: checkAll_loop_idle)
  next
    case (Some a)
    show ?thesis
    proof (cases pause)
      case True
      with "1.prems" show ?thesis by (simp add: checkAll_loop_pause)
    next
      case False
      from "1.prems" Some False obtain st1 reported
        where step: "checkAll_step cfg rd a st = Some (st1, reported)"
          and rest: "checkAll_loop cfg rd (sc + 1) (reported \<or> sc + 1 \<ge> 16) st1 = Some (n, st')"
        by (auto simp: checkAll_loop_step split: option.splits)
      from step obtain s where
        "st1 = st\<lparr>heap := (heap st)(a \<mapsto> fst (checkAll_body cfg rd s)),
                   readingSensor := nextSensor s,
                   broadcastSensor_calls := broadcastSensor_calls st @
                     (case snd (checkAll_body cfg rd s) of None \<Rightarrow> [] | Some r \<Rightarrow> [r])\<rparr>"
        by (rule checkAll_stepD)
      then have "lastReadCycle st1 = lastReadCycle st" by simp
      with "1.IH" [OF Some False step refl rest] show ?thesis by simp
    qed
  qed
qed

lemma checkAll_loop_scans_one:
  assumes "readingSensor st = Some a" and "checkAll_loop cfg rd sc False st = Some (n, st')"
  shows "sc < n"
proof -
  from assms obtain st1 reported
    where "checkAll_loop cfg rd (sc + 1) (reported \<or> sc + 1 \<ge> 16) st1 = Some (n, st')"
    by (auto simp: checkAll_loop_step split: option.splits)
  then have "sc + 1 \<le> n" by (rule checkAll_loop_count)
  then show ?thesis by simp
qed

lemma checkAll_lastReadCycle:
  assumes "checkAll cfg thisTime rd st = Some (n, st')"
  shows "lastReadCycle st' =
           (if readingSensor st = None \<and> n \<noteq> 0 then thisTime else lastReadCycle st) \<and>
         (readingSensor st = None \<and> n \<noteq> 0 \<longrightarrow> cycleInterval cfg \<le> thisTime - lastReadCycle st)"
proof -
  define s0 where "s0 = (if USE_NOTIFY cfg then st\<lparr>inputChangeCallbackRegistered := True\<rparr> else st)"
  define s1 where "s1 = (if readingSensor s0 = None then
                    (if thisTime - lastReadCycle s0 \<ge> cycleInterval cfg
                     then s0\<lparr>readingSensor := firstSensor s0, lastReadCycle := thisTime\<rparr>
                     else s0)
                  else s0)"
  have unf: "checkAll cfg thisTime rd st =
      (if firstSensor s0 = None then Some (0, s0) else checkAll_loop cfg rd 0 False s1)"
    by (simp only: checkAll_def Let_def s0_def s1_def)
  have s0: "readingSensor s0 = readingSensor st" "lastReadCycle s0 = lastReadCycle st"
    by (simp_all add: s0_def)
  show ?thesis
  proof (cases "firstSensor s0 = None")
    case True
    with assms unf s0 show ?thesis by auto
  next
    case first: False
    with assms unf have run: "checkAll_loop cfg rd 0 False s1 = Some (n, st')" by simp
    then have keep: "lastReadCycle st' = lastReadCycle s1" by (rule checkAll_loop_lastReadCycle)
    show ?thesis
    proof (cases "readingSensor st = None")
      case False
      with s0 have "s1 = s0" by (auto simp: s1_def)
      with keep s0 False show ?thesis by auto
    next
      case idle: True
      show ?thesis
      proof (cases "cycleInterval cfg \<le> thisTime - lastReadCycle st")
        case True
        with idle s0 have s1: "s1 = s0\<lparr>readingSensor := firstSensor s0, lastReadCycle := thisTime\<rparr>"
          by (simp add: s1_def)
        from first obtain f where "firstSensor s0 = Some f" by auto
        with s1 have "readingSensor s1 = Some f" by simp
        from this run have "0 < n" by (rule checkAll_loop_scans_one)
        with keep s1 idle True show ?thesis by auto
      next
        case False
        with idle s0 have s1: "s1 = s0" by (simp add: s1_def)
        with idle s0 run have "n = 0" by (simp add: checkAll_loop_idle)
        with keep s1 s0 show ?thesis by auto
      qed
    qed
  qed
qed

lemma checkAll_trace_gated:
  "checkAll_trace cfg calls st = Some (tr, st') \<Longrightarrow>
   gated cfg (lastReadCycle st) tr"
proof (induction calls arbitrary: st tr)
  case Nil
  then show ?case by auto
next
  case (Cons c calls)
  obtain t rd where c: "c = (t, rd)" by (cases c)
  from Cons.prems c obtain n st1 tr1
    where one: "checkAll cfg t rd st = Some (n, st1)"
      and rest: "checkAll_trace cfg calls st1 = Some (tr1, st')"
      and tr: "tr = (t, readingSensor st = None, n) # tr1"
    by (auto split: option.splits)
  from Cons.IH [OF rest] have "gated cfg (lastReadCycle st1) tr1" .
  with checkAll_lastReadCycle [OF one] tr show ?case
    by (cases "readingSensor st = None \<and> n \<noteq> 0") auto
qed


lemma checkAll_trace_recordedStart:
  "checkAll_trace cfg calls st = Some (tr, st') \<Longrightarrow>
   lastReadCycle st' = recordedStart (lastReadCycle st) tr"
proof (induction calls arbitrary: st tr)
  case Nil
  then show ?case by auto
next
  case (Cons c calls)
  obtain t rd where c: "c = (t, rd)" by (cases c)
  from Cons.prems c obtain n st1 tr1
    where one: "checkAll cfg t rd st = Some (n, st1)"
      and rest: "checkAll_trace cfg calls st1 = Some (tr1, st')"
      and tr: "tr = (t, readingSensor st = None, n) # tr1"
    by (auto split: option.splits)
  from Cons.IH [OF rest] have "lastReadCycle st' = recordedStart (lastReadCycle st1) tr1" .
  with checkAll_lastReadCycle [OF one] tr show ?case
    by (cases "readingSensor st = None \<and> n \<noteq> 0") auto
qed

text \<open>
  C5. While the cursor is idle, invocations that come before the minimum interval
  \<^verbatim>\<open>cycleInterval\<close> has elapsed since the recorded start of the previous cycle
  (\<^verbatim>\<open>lastReadCycle\<close>; the elapsed time is the 32-bit difference the code computes) scan
  no descriptor and leave the state as it is, however many they are; under
  \<^verbatim>\<open>USE_NOTIFY\<close> they only record that the callback is registered. An invocation
  records its own time as the start of a cycle exactly when it finds the cursor idle
  and scans (it starts a cycle), and keeps the recorded start otherwise; when it starts
  a cycle, at least the minimum interval has elapsed since the recorded start. So in
  every sequence of invocations, each one that starts a cycle comes at least the
  minimum interval after the one that started the previous cycle (after the start
  recorded initially, for the first), and the recorded start at the end is the time of
  the last one that started a cycle.
\<close>

theorem checkAll_cycle_gating:
  "(readingSensor st = None \<and>
    (\<forall>c \<in> set calls. fst c - lastReadCycle st < cycleInterval cfg) \<longrightarrow>
      checkAll_seq cfg calls st =
        Some (replicate (length calls) 0,
              if USE_NOTIFY cfg \<and> calls \<noteq> []
              then st\<lparr>inputChangeCallbackRegistered := True\<rparr> else st))
   \<and> (checkAll cfg thisTime rd st = Some (n, st') \<longrightarrow>
        lastReadCycle st' =
          (if readingSensor st = None \<and> n \<noteq> 0 then thisTime else lastReadCycle st) \<and>
        (readingSensor st = None \<and>
         (n \<noteq> 0 \<or> lastReadCycle st' \<noteq> lastReadCycle st \<or> readingSensor st' \<noteq> None) \<longrightarrow>
           cycleInterval cfg \<le> thisTime - lastReadCycle st))
   \<and> (checkAll_trace cfg calls st = Some (tr, st'') \<longrightarrow>
        gated cfg (lastReadCycle st) tr \<and>
        lastReadCycle st'' = recordedStart (lastReadCycle st) tr)"
proof (intro conjI impI)
  assume "readingSensor st = None \<and>
    (\<forall>c \<in> set calls. fst c - lastReadCycle st < cycleInterval cfg)"
  then show "checkAll_seq cfg calls st =
        Some (replicate (length calls) 0,
              if USE_NOTIFY cfg \<and> calls \<noteq> []
              then st\<lparr>inputChangeCallbackRegistered := True\<rparr> else st)"
    by (simp add: checkAll_seq_early)
next
  assume "checkAll cfg thisTime rd st = Some (n, st')"
  then show "lastReadCycle st' =
          (if readingSensor st = None \<and> n \<noteq> 0 then thisTime else lastReadCycle st)"
    by (simp add: checkAll_lastReadCycle)
next
  assume run: "checkAll cfg thisTime rd st = Some (n, st')"
    and a: "readingSensor st = None \<and>
         (n \<noteq> 0 \<or> lastReadCycle st' \<noteq> lastReadCycle st \<or> readingSensor st' \<noteq> None)"
  show "cycleInterval cfg \<le> thisTime - lastReadCycle st"
  proof (rule ccontr)
    assume "\<not> cycleInterval cfg \<le> thisTime - lastReadCycle st"
    with a have "checkAll cfg thisTime rd st =
        Some (0, if USE_NOTIFY cfg then st\<lparr>inputChangeCallbackRegistered := True\<rparr> else st)"
      by (simp add: checkAll_idle_early)
    with run a show False by (auto split: if_splits)
  qed
next
  assume "checkAll_trace cfg calls st = Some (tr, st'')"
  then show "gated cfg (lastReadCycle st) tr" by (rule checkAll_trace_gated)
next
  assume "checkAll_trace cfg calls st = Some (tr, st'')"
  then show "lastReadCycle st'' = recordedStart (lastReadCycle st) tr"
    by (rule checkAll_trace_recordedStart)
qed

theorem checkAll_cycle_gating_witness:
  "readingSensor reg3_idle = None
   \<and> checkAll_seq cfg3 early_calls reg3_idle = Some ([0, 0], reg3_idle)
   \<and> (\<exists>n st'. checkAll cfg3 20000 pins_low reg3_idle = Some (n, st') \<and> n = 3 \<and>
         lastReadCycle st' = 20000)
   \<and> cycleInterval cfg3 \<le> 20000 - lastReadCycle reg3_idle
   \<and> (\<exists>st''. checkAll_trace cfg3 late_calls reg3_idle =
                Some ([(20000, True, 3), (20001, True, 0), (30000, True, 3)], st'') \<and>
              lastReadCycle st'' = 30000)
   \<and> gated cfg3 (lastReadCycle reg3_idle) [(20000, True, 3), (20001, True, 0), (30000, True, 3)]"
proof -
  have idle: "readingSensor reg3_idle = None"
    by (simp add: reg3_idle_def)
  have early: "readingSensor reg3_idle = None \<and>
      (\<forall>c \<in> set early_calls. fst c - lastReadCycle reg3_idle < cycleInterval cfg3)"
    by (simp add: example_defs)
  have "\<exists>n st'. checkAll cfg3 20000 pins_low reg3_idle = Some (n, st') \<and> n = 3"
    by (simp add: example_defs checkAll_eval)
  then obtain n st' where run: "checkAll cfg3 20000 pins_low reg3_idle = Some (n, st')"
    and n: "n = 3"
    by blast
  have "\<exists>st''. checkAll_trace cfg3 late_calls reg3_idle =
                Some ([(20000, True, 3), (20001, True, 0), (30000, True, 3)], st'')"
    by (simp add: example_defs late_calls_def checkAll_eval word_le_nat_alt)
  then obtain st'' where tr: "checkAll_trace cfg3 late_calls reg3_idle =
                Some ([(20000, True, 3), (20001, True, 0), (30000, True, 3)], st'')"
    by blast
  note g = checkAll_cycle_gating [of reg3_idle early_calls cfg3 20000 pins_low n st']
  note h = checkAll_cycle_gating [of reg3_idle late_calls cfg3 20000 pins_low n st'
      "[(20000, True, 3), (20001, True, 0), (30000, True, 3)]" st'']
  from g early have "checkAll_seq cfg3 early_calls reg3_idle =
          Some (replicate (length early_calls) 0,
                if USE_NOTIFY cfg3 \<and> early_calls \<noteq> []
                then reg3_idle\<lparr>inputChangeCallbackRegistered := True\<rparr> else reg3_idle)"
    by blast
  then have seq: "checkAll_seq cfg3 early_calls reg3_idle = Some ([0, 0], reg3_idle)"
    by (simp add: cfg3_def early_calls_def)
  from g run n idle have t: "lastReadCycle st' = 20000"
    and late: "cycleInterval cfg3 \<le> 20000 - lastReadCycle reg3_idle"
    by simp_all
  from h tr have gate: "gated cfg3 (lastReadCycle reg3_idle)
        [(20000, True, 3), (20001, True, 0), (30000, True, 3)]"
    and "lastReadCycle st'' =
        recordedStart (lastReadCycle reg3_idle) [(20000, True, 3), (20001, True, 0), (30000, True, 3)]"
    by blast+
  then have fin: "lastReadCycle st'' = 30000" by simp
  from run n t have one: "\<exists>n st'. checkAll cfg3 20000 pins_low reg3_idle = Some (n, st') \<and> n = 3 \<and>
         lastReadCycle st' = 20000"
    by blast
  from tr fin have three: "\<exists>st''. checkAll_trace cfg3 late_calls reg3_idle =
                Some ([(20000, True, 3), (20001, True, 0), (30000, True, 3)], st'') \<and>
              lastReadCycle st'' = 30000"
    by blast
  from idle seq one late three gate show ?thesis by (intro conjI)
qed

lemma walk_idle [simp]: "walk h None k = []"
  by (cases k) simp_all

lemma checkAll_body_armed:
  assumes "inputState s \<noteq> active s" and "latchDelay s = 0"
    and "\<not> (pollingRequired s \<and> pin (data s) \<noteq> VPIN_NONE cfg)"
  shows "checkAll_body cfg rd s =
           (s\<lparr>active := inputState s, latchDelay := minReadCount cfg\<rparr>,
            Some (snum (data s), inputState s))"
  using assms by (auto simp: checkAll_body_def Let_def)

lemma checkAll_loop_visits_armed:
  "checkAll_loop cfg rd sc pause st = Some (n, st') \<Longrightarrow>
   heap st a = Some s \<Longrightarrow> inputState s \<noteq> active s \<Longrightarrow> latchDelay s = 0 \<Longrightarrow>
   \<not> (pollingRequired s \<and> pin (data s) \<noteq> VPIN_NONE cfg) \<Longrightarrow>
   a \<in> set (walk (heap st) (readingSensor st) (n - sc)) \<Longrightarrow>
   broadcastSensor_calls st' = broadcastSensor_calls st @ [(snum (data s), inputState s)] \<and>
   heap st' a = Some (s\<lparr>active := inputState s, latchDelay := minReadCount cfg\<rparr>) \<and>
   last (walk (heap st) (readingSensor st) (n - sc)) = a \<and>
   readingSensor st' = nextSensor s"
proof (induction cfg rd sc pause st arbitrary: n st' rule: checkAll_loop.induct)
  case (1 cfg rd sc pause st)
  note run = "1.prems"(1) and ha = "1.prems"(2) and armed = "1.prems"(3,4,5)
    and vis = "1.prems"(6)
  show ?case
  proof (cases "readingSensor st")
    case None
    with vis show ?thesis by simp
  next
    case (Some c)
    show ?thesis
    proof (cases pause)
      case True
      with run have "n = sc" by (simp add: checkAll_loop_pause)
      with vis show ?thesis by simp
    next
      case False
      from run Some False obtain st1 reported
        where step: "checkAll_step cfg rd c st = Some (st1, reported)"
          and rest: "checkAll_loop cfg rd (sc + 1) (reported \<or> sc + 1 \<ge> 16) st1 = Some (n, st')"
        by (auto simp: checkAll_loop_step split: option.splits)
      from step obtain sc' where hc: "heap st c = Some sc'"
        and st1: "st1 = st\<lparr>heap := (heap st)(c \<mapsto> fst (checkAll_body cfg rd sc')),
                   readingSensor := nextSensor sc',
                   broadcastSensor_calls := broadcastSensor_calls st @
                     (case snd (checkAll_body cfg rd sc') of None \<Rightarrow> [] | Some r \<Rightarrow> [r])\<rparr>"
        and rep: "reported = (snd (checkAll_body cfg rd sc') \<noteq> None)"
        by (rule checkAll_stepD)
      from rest have le: "sc + 1 \<le> n" by (rule checkAll_loop_count)
      then have suc: "n - sc = Suc (n - (sc + 1))" by arith
      have w1: "walk (heap st1) (readingSensor st1) (n - (sc + 1)) =
                walk (heap st) (nextSensor sc') (n - (sc + 1))"
        using st1 hc by (simp add: walk_upd_keeps_next checkAll_body_keeps)
      have w: "walk (heap st) (readingSensor st) (n - sc) =
               c # walk (heap st) (nextSensor sc') (n - (sc + 1))"
        using Some hc suc by simp
      show ?thesis
      proof (cases "c = a")
        case True
        with hc ha have same: "sc' = s" by simp
        note body = checkAll_body_armed [OF armed, of rd]
        from rep body same have "reported" by simp
        with rest have fin: "st' = st1" "n = sc + 1" by (simp_all add: checkAll_loop_pause)
        from fin w True have "walk (heap st) (readingSensor st) (n - sc) = [a]" by simp
        with fin st1 body same True show ?thesis by simp
      next
        case other: False
        with st1 ha have ha1: "heap st1 a = Some s" by simp
        from vis w other have in1: "a \<in> set (walk (heap st) (nextSensor sc') (n - (sc + 1)))"
          by simp
        have norep: "\<not> reported"
        proof
          assume "reported"
          with rest have "n = sc + 1" by (simp add: checkAll_loop_pause)
          with in1 show False by simp
        qed
        with rep have "snd (checkAll_body cfg rd sc') = None" by blast
        with st1 have out: "broadcastSensor_calls st1 = broadcastSensor_calls st" by simp
        from in1 w1 have in1': "a \<in> set (walk (heap st1) (readingSensor st1) (n - (sc + 1)))"
          by simp
        from "1.IH" [OF Some False step refl rest ha1 armed in1']
        have ih: "broadcastSensor_calls st' =
              broadcastSensor_calls st1 @ [(snum (data s), inputState s)] \<and>
            heap st' a = Some (s\<lparr>active := inputState s, latchDelay := minReadCount cfg\<rparr>) \<and>
            last (walk (heap st1) (readingSensor st1) (n - (sc + 1))) = a \<and>
            readingSensor st' = nextSensor s" .
        from in1 have ne: "walk (heap st) (nextSensor sc') (n - (sc + 1)) \<noteq> []" by auto
        from ih out w w1 ne show ?thesis by simp
      qed
    qed
  qed
qed

lemma checkAll_visits_armed:
  assumes run: "checkAll cfg thisTime rd st = Some (n, st')"
    and ha: "heap st a = Some s"
    and armed: "inputState s \<noteq> active s" "latchDelay s = 0"
      "\<not> (pollingRequired s \<and> pin (data s) \<noteq> VPIN_NONE cfg)"
    and vis: "a \<in> set (walk (heap st)
                 (if readingSensor st = None then firstSensor st else readingSensor st) n)"
  shows "broadcastSensor_calls st' = broadcastSensor_calls st @ [(snum (data s), inputState s)] \<and>
   heap st' a = Some (s\<lparr>active := inputState s, latchDelay := minReadCount cfg\<rparr>) \<and>
   last (walk (heap st)
           (if readingSensor st = None then firstSensor st else readingSensor st) n) = a \<and>
   readingSensor st' = nextSensor s"
  using checkAll_entry [OF run]
proof
  assume "n = 0 \<and> heap st' = heap st \<and> broadcastSensor_calls st' = broadcastSensor_calls st"
  with vis show ?thesis by simp
next
  let ?c = "if readingSensor st = None then firstSensor st else readingSensor st"
  assume "\<exists>st1. checkAll_loop cfg rd 0 False st1 = Some (n, st') \<and> heap st1 = heap st \<and>
          broadcastSensor_calls st1 = broadcastSensor_calls st \<and> readingSensor st1 = ?c"
  then obtain st1 where loop: "checkAll_loop cfg rd 0 False st1 = Some (n, st')"
    and h: "heap st1 = heap st" and b: "broadcastSensor_calls st1 = broadcastSensor_calls st"
    and c: "readingSensor st1 = ?c"
    by blast
  from ha h have ha1: "heap st1 a = Some s" by simp
  from vis h c have vis1: "a \<in> set (walk (heap st1) (readingSensor st1) (n - 0))" by simp
  from checkAll_loop_visits_armed [OF loop ha1 armed vis1] h b c show ?thesis by simp
qed

lemma checkAll_skips:
  assumes run: "checkAll cfg thisTime rd st = Some (n, st')"
    and "a \<notin> set (walk (heap st)
                 (if readingSensor st = None then firstSensor st else readingSensor st) n)"
  shows "heap st' a = heap st a"
  using checkAll_entry [OF run]
proof
  assume "n = 0 \<and> heap st' = heap st \<and> broadcastSensor_calls st' = broadcastSensor_calls st"
  then show ?thesis by simp
next
  let ?c = "if readingSensor st = None then firstSensor st else readingSensor st"
  assume "\<exists>st1. checkAll_loop cfg rd 0 False st1 = Some (n, st') \<and> heap st1 = heap st \<and>
          broadcastSensor_calls st1 = broadcastSensor_calls st \<and> readingSensor st1 = ?c"
  then obtain st1 where loop: "checkAll_loop cfg rd 0 False st1 = Some (n, st')"
    and h: "heap st1 = heap st" and c: "readingSensor st1 = ?c"
    by blast
  from checkAll_loop_frame [OF loop] h c assms(2) show ?thesis by simp
qed

text \<open>
  C9 (as amended). \<^verbatim>\<open>setState(value)\<close> sets \<^verbatim>\<open>inputState\<close> to \<^verbatim>\<open>value != 0\<close> and
  \<^verbatim>\<open>latchDelay\<close> to 0, for every descriptor. For a descriptor that \<^verbatim>\<open>checkAll\<close> does
  not poll (\<^verbatim>\<open>pollingRequired\<close> false, or no pin), when the value differs from the
  committed state: an invocation of \<^verbatim>\<open>checkAll\<close> entered with the cursor on the
  descriptor returns, having scanned it alone, committed the value and broadcast it; and
  in any state in which the descriptor is as \<^verbatim>\<open>setState\<close> left it, wherever the cursor
  is, an invocation of \<^verbatim>\<open>checkAll\<close> that scans the descriptor (it is among the \<open>n\<close>
  descriptors scanned from the entry cursor) commits the value, broadcasts it as its only
  transition and stops on it, while an invocation that does not scan it leaves it as
  it is. So the first scan tick that visits the descriptor commits and broadcasts.
\<close>

theorem setState_commits_on_next_tick:
  assumes "heap st a = Some s"
  shows "setState a val st =
           Some (st\<lparr>heap := (heap st)(a \<mapsto> s\<lparr>inputState := (val \<noteq> 0), latchDelay := 0\<rparr>)\<rparr>)
         \<and> (\<not> (pollingRequired s \<and> pin (data s) \<noteq> VPIN_NONE cfg) \<and> (val \<noteq> 0) \<noteq> active s \<and>
             readingSensor st = Some a \<and> firstSensor st \<noteq> None \<longrightarrow>
             (\<exists>st1 st2. setState a val st = Some st1 \<and>
                checkAll cfg thisTime rd st1 = Some (1, st2) \<and>
                broadcastSensor_calls st2 = broadcastSensor_calls st @ [(snum (data s), val \<noteq> 0)] \<and>
                heap st2 a = Some (s\<lparr>inputState := (val \<noteq> 0), active := (val \<noteq> 0),
                                     latchDelay := minReadCount cfg\<rparr>)))
         \<and> (\<not> (pollingRequired s \<and> pin (data s) \<noteq> VPIN_NONE cfg) \<and> (val \<noteq> 0) \<noteq> active s \<and>
             heap sx a = Some (s\<lparr>inputState := (val \<noteq> 0), latchDelay := 0\<rparr>) \<and>
             checkAll cfg thisTime rd sx = Some (n, sx') \<longrightarrow>
             (a \<in> set (walk (heap sx)
                         (if readingSensor sx = None then firstSensor sx else readingSensor sx) n) \<longrightarrow>
                broadcastSensor_calls sx' = broadcastSensor_calls sx @ [(snum (data s), val \<noteq> 0)] \<and>
                heap sx' a = Some (s\<lparr>inputState := (val \<noteq> 0), active := (val \<noteq> 0),
                                     latchDelay := minReadCount cfg\<rparr>) \<and>
                last (walk (heap sx)
                        (if readingSensor sx = None then firstSensor sx else readingSensor sx) n) = a \<and>
                readingSensor sx' = nextSensor s) \<and>
             (a \<notin> set (walk (heap sx)
                         (if readingSensor sx = None then firstSensor sx else readingSensor sx) n) \<longrightarrow>
                heap sx' a = heap sx a))"
proof (intro conjI impI)
  let ?st1 = "st\<lparr>heap := (heap st)(a \<mapsto> s\<lparr>inputState := (val \<noteq> 0), latchDelay := 0\<rparr>)\<rparr>"
  show set: "setState a val st = Some ?st1"
    using assms by (simp add: setState_def)
  assume a: "\<not> (pollingRequired s \<and> pin (data s) \<noteq> VPIN_NONE cfg) \<and> (val \<noteq> 0) \<noteq> active s \<and>
             readingSensor st = Some a \<and> firstSensor st \<noteq> None"
  let ?s2 = "s\<lparr>inputState := (val \<noteq> 0), active := (val \<noteq> 0), latchDelay := minReadCount cfg\<rparr>"
  have body: "checkAll_body cfg rd (s\<lparr>inputState := (val \<noteq> 0), latchDelay := 0\<rparr>) =
                (?s2, Some (snum (data s), val \<noteq> 0))"
    using a by (auto simp: checkAll_body_def Let_def)
  have "\<exists>st2. checkAll cfg thisTime rd ?st1 = Some (1, st2) \<and>
          broadcastSensor_calls st2 = broadcastSensor_calls st @ [(snum (data s), val \<noteq> 0)] \<and>
          heap st2 a = Some ?s2"
    using a body
    by (cases "USE_NOTIFY cfg")
       (simp_all add: checkAll_def Let_def checkAll_loop_step checkAll_loop_pause checkAll_step_def)
  with set show "\<exists>st1 st2. setState a val st = Some st1 \<and>
                checkAll cfg thisTime rd st1 = Some (1, st2) \<and>
                broadcastSensor_calls st2 = broadcastSensor_calls st @ [(snum (data s), val \<noteq> 0)] \<and>
                heap st2 a = Some ?s2"
    by blast
next
  let ?sa = "s\<lparr>inputState := (val \<noteq> 0), latchDelay := 0\<rparr>"
  let ?c = "if readingSensor sx = None then firstSensor sx else readingSensor sx"
  assume a: "\<not> (pollingRequired s \<and> pin (data s) \<noteq> VPIN_NONE cfg) \<and> (val \<noteq> 0) \<noteq> active s \<and>
             heap sx a = Some ?sa \<and> checkAll cfg thisTime rd sx = Some (n, sx')"
  then have run: "checkAll cfg thisTime rd sx = Some (n, sx')" and ha: "heap sx a = Some ?sa"
    and armed: "inputState ?sa \<noteq> active ?sa" "latchDelay ?sa = 0"
      "\<not> (pollingRequired ?sa \<and> pin (data ?sa) \<noteq> VPIN_NONE cfg)"
    by simp_all
  {
    assume vis: "a \<in> set (walk (heap sx) ?c n)"
    from checkAll_visits_armed [OF run ha armed vis]
    show "broadcastSensor_calls sx' = broadcastSensor_calls sx @ [(snum (data s), val \<noteq> 0)]"
      and "heap sx' a = Some (s\<lparr>inputState := (val \<noteq> 0), active := (val \<noteq> 0),
                                     latchDelay := minReadCount cfg\<rparr>)"
      and "last (walk (heap sx) ?c n) = a"
      and "readingSensor sx' = nextSensor s"
      by simp_all
  }
  {
    assume "a \<notin> set (walk (heap sx) ?c n)"
    with run show "heap sx' a = heap sx a" by (rule checkAll_skips)
  }
qed


theorem setState_commits_on_next_tick_witness:
  "heap reg4 4 = Some sensor20
   \<and> \<not> (pollingRequired sensor20 \<and> pin (data sensor20) \<noteq> VPIN_NONE cfg3)
   \<and> ((1::int) \<noteq> 0) \<noteq> active sensor20
   \<and> readingSensor reg4 = Some 4 \<and> firstSensor reg4 \<noteq> None
   \<and> (\<exists>st1 st2. setState 4 1 reg4 = Some st1 \<and>
         checkAll cfg3 0 pins_low st1 = Some (1, st2) \<and>
         broadcastSensor_calls st2 = [(20, True)])
   \<and> heap reg5 4 = Some sensor20 \<and> readingSensor reg5 = None
   \<and> (\<exists>st1 n st2. setState 4 1 reg5 = Some st1 \<and>
         checkAll cfg3 20000 pins_low st1 = Some (n, st2) \<and> n = 2 \<and>
         broadcastSensor_calls st2 = [(20, True)] \<and>
         map_option active (heap st2 4) = Some True)
   \<and> (\<exists>st1 n st2. setState 4 1 reg5 = Some st1 \<and>
         checkAll cfg3 5000 pins_low st1 = Some (n, st2) \<and> n = 0 \<and>
         heap st2 4 = heap st1 4)"
proof -
  have h: "heap reg4 4 = Some sensor20"
    by (simp add: reg4_def)
  have p: "\<not> (pollingRequired sensor20 \<and> pin (data sensor20) \<noteq> VPIN_NONE cfg3) \<and>
           ((1::int) \<noteq> 0) \<noteq> active sensor20 \<and>
           readingSensor reg4 = Some 4 \<and> firstSensor reg4 \<noteq> None"
    by (simp add: reg4_def sensor20_def cfg3_def)
  have o: "broadcastSensor_calls reg4 = []" and i: "snum (data sensor20) = 20"
    by (simp_all add: reg4_def reg3_def sensor20_def)
  from setState_commits_on_next_tick [OF h, of 1 cfg3 0 pins_low] p
  obtain st1 st2 where "setState 4 1 reg4 = Some st1"
    and "checkAll cfg3 0 pins_low st1 = Some (1, st2)"
    and "broadcastSensor_calls st2 =
           broadcastSensor_calls reg4 @ [(snum (data sensor20), (1::int) \<noteq> 0)]"
    by blast
  with o i have first: "\<exists>st1 st2. setState 4 1 reg4 = Some st1 \<and>
         checkAll cfg3 0 pins_low st1 = Some (1, st2) \<and>
         broadcastSensor_calls st2 = [(20, True)]"
    by simp
  have h5: "heap reg5 4 = Some sensor20" and idle5: "readingSensor reg5 = None"
    by (simp_all add: reg5_def)
  let ?st1 = "reg5\<lparr>heap := (heap reg5)(4 \<mapsto> sensor20\<lparr>inputState := ((1::int) \<noteq> 0),
                                                     latchDelay := 0\<rparr>)\<rparr>"
  have q: "\<not> (pollingRequired sensor20 \<and> pin (data sensor20) \<noteq> VPIN_NONE cfg3) \<and>
           ((1::int) \<noteq> 0) \<noteq> active sensor20 \<and>
           heap ?st1 4 = Some (sensor20\<lparr>inputState := ((1::int) \<noteq> 0), latchDelay := 0\<rparr>)"
    by (simp add: sensor20_def cfg3_def)
  have o5: "broadcastSensor_calls ?st1 = []"
    by (simp add: reg5_def reg3_def)
  have set5: "setState 4 1 reg5 = Some ?st1"
    using setState_commits_on_next_tick [OF h5, of 1] by blast
  have "\<exists>n st2. checkAll cfg3 20000 pins_low ?st1 = Some (n, st2) \<and> n = 2"
    by (simp add: example_defs reg5_def sensor30_def checkAll_eval word_le_nat_alt)
  then obtain n st2 where run: "checkAll cfg3 20000 pins_low ?st1 = Some (n, st2)" and n: "n = 2"
    by blast
  have vis: "4 \<in> set (walk (heap ?st1)
        (if readingSensor ?st1 = None then firstSensor ?st1 else readingSensor ?st1) n)"
    unfolding n by (simp add: reg5_def sensor30_def numeral_2_eq_2)
  from setState_commits_on_next_tick [OF h5, of 1 cfg3 20000 pins_low ?st1 n st2] q run vis
  have "broadcastSensor_calls st2 =
          broadcastSensor_calls ?st1 @ [(snum (data sensor20), (1::int) \<noteq> 0)]"
    and "heap st2 4 = Some (sensor20\<lparr>inputState := ((1::int) \<noteq> 0), active := ((1::int) \<noteq> 0),
                                     latchDelay := minReadCount cfg3\<rparr>)"
    by blast+
  with o5 i have "broadcastSensor_calls st2 = [(20, True)]"
    and "map_option active (heap st2 4) = Some True"
    by simp_all
  with set5 run n have second: "\<exists>st1 n st2. setState 4 1 reg5 = Some st1 \<and>
         checkAll cfg3 20000 pins_low st1 = Some (n, st2) \<and> n = 2 \<and>
         broadcastSensor_calls st2 = [(20, True)] \<and>
         map_option active (heap st2 4) = Some True"
    by blast
  have "\<exists>n st3. checkAll cfg3 5000 pins_low ?st1 = Some (n, st3) \<and> n = 0"
    by (simp add: example_defs reg5_def sensor30_def checkAll_eval word_le_nat_alt)
  then obtain m st3 where run3: "checkAll cfg3 5000 pins_low ?st1 = Some (m, st3)" and m: "m = 0"
    by blast
  have nvis: "4 \<notin> set (walk (heap ?st1)
        (if readingSensor ?st1 = None then firstSensor ?st1 else readingSensor ?st1) m)"
    unfolding m by simp
  from setState_commits_on_next_tick [OF h5, of 1 cfg3 5000 pins_low ?st1 m st3] q run3 nvis
  have "heap st3 4 = heap ?st1 4" by blast
  with set5 run3 m have third: "\<exists>st1 n st2. setState 4 1 reg5 = Some st1 \<and>
         checkAll cfg3 5000 pins_low st1 = Some (n, st2) \<and> n = 0 \<and>
         heap st2 4 = heap st1 4"
    by blast
  from h p first h5 idle5 second third show ?thesis by (intro conjI) blast+
qed

theorem setState_polled_counterexample:
  "map_option (broadcastSensor_calls \<circ> snd)
     (Option.bind (setState 3 1 reg3) (checkAll cfg3 0 pins_low)) = Some []"
  by (simp add: example_defs setState_def checkAll_eval)

subsection \<open>Paths and lists in the heap\<close>

lemma sensorPath_Nil [simp]: "sensorPath h None as q \<longleftrightarrow> as = [] \<and> q = None"
  by (cases as) auto

lemma sensorPath_Some:
  "sensorPath h (Some a) as q \<longleftrightarrow>
     (as = [] \<and> q = Some a) \<or>
     (\<exists>s bs. as = a # bs \<and> h a = Some s \<and> sensorPath h (nextSensor s) bs q)"
  by (cases as) (auto split: option.splits)

lemma sensorPath_append:
  "sensorPath h p (xs @ ys) q \<longleftrightarrow> (\<exists>r. sensorPath h p xs r \<and> sensorPath h r ys q)"
  by (induction xs arbitrary: p) (auto split: option.splits)

lemma sensorPath_upd_other:
  "a \<notin> set as \<Longrightarrow> sensorPath (h(a := v)) p as q = sensorPath h p as q"
  by (induction as arbitrary: p) (auto split: option.splits)

lemma sensorPath_upd_keeps_next:
  "h a = Some s \<Longrightarrow> nextSensor s' = nextSensor s \<Longrightarrow>
   sensorPath (h(a \<mapsto> s')) p as q = sensorPath h p as q"
  by (induction as arbitrary: p) (auto split: option.splits)

lemma sensorList_None [simp]: "sensorList h None as \<longleftrightarrow> as = []"
  by (simp add: sensorList_def)

lemma sensorList_Nil [simp]: "sensorList h p [] \<longleftrightarrow> p = None"
  by (simp add: sensorList_def)

lemma sensorList_Cons:
  "sensorList h p (a # as) \<longleftrightarrow>
     p = Some a \<and> (\<exists>s. h a = Some s \<and> sensorList h (nextSensor s) as)"
  by (auto simp: sensorList_def split: option.splits)

lemma sensorList_Some:
  "sensorList h (Some a) as \<longleftrightarrow>
     (\<exists>s bs. as = a # bs \<and> h a = Some s \<and> sensorList h (nextSensor s) bs)"
  by (cases as) (auto simp: sensorList_Cons)

lemma sensorList_unique:
  "sensorList h p as \<Longrightarrow> sensorList h p bs \<Longrightarrow> as = bs"
proof (induction as arbitrary: p bs)
  case Nil
  then show ?case by simp
next
  case (Cons a as)
  then show ?case by (cases bs) (auto simp: sensorList_Cons)
qed

lemma sensorList_append:
  "sensorList h p (xs @ ys) \<longleftrightarrow> (\<exists>r. sensorPath h p xs r \<and> sensorList h r ys)"
  by (simp add: sensorList_def sensorPath_append)

lemma sensorList_head_fresh:
  assumes "h a = Some s" and "sensorList h (nextSensor s) as"
  shows "a \<notin> set as"
proof
  assume "a \<in> set as"
  then obtain xs ys where as: "as = xs @ a # ys"
    by (auto simp: in_set_conv_decomp)
  with assms(2) obtain r where "sensorList h r (a # ys)"
    by (auto simp: sensorList_append)
  with assms(1) have "sensorList h (nextSensor s) ys"
    by (simp add: sensorList_Cons)
  with assms(2) have "as = ys" by (rule sensorList_unique)
  with as show False by simp
qed

lemma sensorList_distinct: "sensorList h p as \<Longrightarrow> distinct as"
proof (induction as arbitrary: p)
  case Nil
  then show ?case by simp
next
  case (Cons a as)
  then show ?case by (auto simp: sensorList_Cons dest: sensorList_head_fresh)
qed

lemma sensorList_upd_other:
  "a \<notin> set as \<Longrightarrow> sensorList (h(a := v)) p as = sensorList h p as"
  by (simp add: sensorList_def sensorPath_upd_other)

lemma sensorList_upd_keeps_next:
  "h a = Some s \<Longrightarrow> nextSensor s' = nextSensor s \<Longrightarrow>
   sensorList (h(a \<mapsto> s')) p as = sensorList h p as"
  by (simp add: sensorList_def sensorPath_upd_keeps_next)

lemma sensorList_allocated:
  "sensorList h p as \<Longrightarrow> a \<in> set as \<Longrightarrow> \<exists>s. h a = Some s"
  by (induction as arbitrary: p) (auto simp: sensorList_Cons)

subsection \<open>\<^verbatim>\<open>checkAll\<close> on a well-formed list\<close>

lemma checkAll_loop_returns:
  "sensorList (heap st) (readingSensor st) bs \<Longrightarrow>
   \<exists>n st'. checkAll_loop cfg rd sc pause st = Some (n, st')"
proof (induction bs arbitrary: sc pause st)
  case Nil
  then show ?case by (simp add: checkAll_loop_idle)
next
  case (Cons a bs)
  then obtain s where c: "readingSensor st = Some a" and s: "heap st a = Some s"
    and tl: "sensorList (heap st) (nextSensor s) bs"
    by (auto simp: sensorList_Cons)
  show ?case
  proof (cases pause)
    case True
    then show ?thesis by (simp add: checkAll_loop_pause)
  next
    case False
    obtain s' rep where body: "checkAll_body cfg rd s = (s', rep)"
      by (cases "checkAll_body cfg rd s")
    then have next': "nextSensor s' = nextSensor s"
      using checkAll_body_keeps(1) [of cfg rd s] by simp
    let ?st1 = "st\<lparr>heap := (heap st)(a \<mapsto> s'), readingSensor := nextSensor s',
                   broadcastSensor_calls := broadcastSensor_calls st @
                     (case rep of None \<Rightarrow> [] | Some r \<Rightarrow> [r])\<rparr>"
    have step: "checkAll_step cfg rd a st = Some (?st1, \<not> Option.is_none rep)"
      using s body by (simp add: checkAll_step_def)
    from s tl have "a \<notin> set bs" by (rule sensorList_head_fresh)
    with tl next' have "sensorList (heap ?st1) (readingSensor ?st1) bs"
      by (simp add: sensorList_upd_other)
    from Cons.IH [OF this]
    obtain n st' where "checkAll_loop cfg rd (sc + 1) (\<not> Option.is_none rep \<or> sc + 1 \<ge> 16) ?st1 =
        Some (n, st')"
      by blast
    with c False step show ?thesis
      by (simp add: checkAll_loop_step)
  qed
qed

lemma checkAll_loop_keeps_free:
  "checkAll_loop cfg rd sc pause st = Some (n, st') \<Longrightarrow> heap st c = None \<Longrightarrow> heap st' c = None"
proof (induction cfg rd sc pause st arbitrary: n st' rule: checkAll_loop.induct)
  case (1 cfg rd sc pause st)
  show ?case
  proof (cases "readingSensor st")
    case None
    with "1.prems" show ?thesis by (simp add: checkAll_loop_idle)
  next
    case (Some a)
    show ?thesis
    proof (cases pause)
      case True
      with "1.prems" show ?thesis by (simp add: checkAll_loop_pause)
    next
      case False
      from "1.prems" Some False obtain st1 reported
        where step: "checkAll_step cfg rd a st = Some (st1, reported)"
          and rest: "checkAll_loop cfg rd (sc + 1) (reported \<or> sc + 1 \<ge> 16) st1 = Some (n, st')"
        by (auto simp: checkAll_loop_step split: option.splits)
      from step obtain s where hs: "heap st a = Some s"
        and st1: "st1 = st\<lparr>heap := (heap st)(a \<mapsto> fst (checkAll_body cfg rd s)),
                   readingSensor := nextSensor s,
                   broadcastSensor_calls := broadcastSensor_calls st @
                     (case snd (checkAll_body cfg rd s) of None \<Rightarrow> [] | Some r \<Rightarrow> [r])\<rparr>"
        by (rule checkAll_stepD)
      from hs "1.prems"(2) have "a \<noteq> c" by auto
      with st1 "1.prems"(2) have "heap st1 c = None" by simp
      with "1.IH" [OF Some False step refl rest] show ?thesis by simp
    qed
  qed
qed

lemma checkAll_returns:
  assumes "sensorList (heap st) (firstSensor st) as"
    and "sensorList (heap st) (readingSensor st) bs"
  shows "\<exists>n st'. checkAll cfg thisTime rd st = Some (n, st')"
proof -
  define s0 where "s0 = (if USE_NOTIFY cfg then st\<lparr>inputChangeCallbackRegistered := True\<rparr> else st)"
  define s1 where "s1 = (if readingSensor s0 = None then
                    (if thisTime - lastReadCycle s0 \<ge> cycleInterval cfg
                     then s0\<lparr>readingSensor := firstSensor s0, lastReadCycle := thisTime\<rparr>
                     else s0)
                  else s0)"
  have unf: "checkAll cfg thisTime rd st =
      (if firstSensor s0 = None then Some (0, s0) else checkAll_loop cfg rd 0 False s1)"
    by (simp only: checkAll_def Let_def s0_def s1_def)
  have a: "sensorList (heap s0) (firstSensor s0) as" and b: "sensorList (heap s0) (readingSensor s0) bs"
    using assms by (simp_all add: s0_def)
  have "sensorList (heap s1) (readingSensor s1) as \<or> sensorList (heap s1) (readingSensor s1) bs"
    using a b by (auto simp: s1_def)
  then have "\<exists>n st'. checkAll_loop cfg rd 0 False s1 = Some (n, st')"
    by (auto intro: checkAll_loop_returns)
  then show ?thesis
    unfolding unf by simp
qed

lemma checkAll_keeps_free:
  assumes "checkAll cfg thisTime rd st = Some (n, st')" and "heap st c = None"
  shows "heap st' c = None"
  using checkAll_entry [OF assms(1)]
proof
  assume "n = 0 \<and> heap st' = heap st \<and> broadcastSensor_calls st' = broadcastSensor_calls st"
  with assms(2) show ?thesis by simp
next
  assume "\<exists>st1. checkAll_loop cfg rd 0 False st1 = Some (n, st') \<and> heap st1 = heap st \<and>
          broadcastSensor_calls st1 = broadcastSensor_calls st \<and>
          readingSensor st1 =
            (if readingSensor st = None then firstSensor st else readingSensor st)"
  then obtain st1 where "checkAll_loop cfg rd 0 False st1 = Some (n, st')" and "heap st1 = heap st"
    by blast
  with assms(2) checkAll_loop_keeps_free [of cfg rd 0 False st1 n st' c] show ?thesis by simp
qed

subsection \<open>The search loops on a well-formed list\<close>

lemma hasId_Some: "h a = Some s \<Longrightarrow> hasId h n a \<longleftrightarrow> snum (data s) = n"
  by (simp add: hasId_def)

lemma hasPin_Some: "h a = Some s \<Longrightarrow> hasPin h vpin a \<longleftrightarrow> pin (data s) = vpin"
  by (simp add: hasPin_def)

lemma get_loop_find:
  "sensorList h p as \<Longrightarrow> get_loop h n p = Some (find (hasId h n) as)"
proof (induction as arbitrary: p)
  case Nil
  then show ?case by (subst get_loop.simps) simp
next
  case (Cons a as)
  then obtain s where p: "p = Some a" and s: "h a = Some s"
    and tl: "sensorList h (nextSensor s) as"
    by (auto simp: sensorList_Cons)
  from Cons.IH [OF tl] p s show ?case
    by (subst get_loop.simps) (simp add: hasId_Some)
qed

lemma inputChangeCallback_loop_find:
  "sensorList h p as \<Longrightarrow> inputChangeCallback_loop h vpin p = Some (find (hasPin h vpin) as)"
proof (induction as arbitrary: p)
  case Nil
  then show ?case by (subst inputChangeCallback_loop.simps) simp
next
  case (Cons a as)
  then obtain s where p: "p = Some a" and s: "h a = Some s"
    and tl: "sensorList h (nextSensor s) as"
    by (auto simp: sensorList_Cons)
  from Cons.IH [OF tl] p s show ?case
    by (subst inputChangeCallback_loop.simps) (simp add: hasPin_Some)
qed

lemma remove_loop_find:
  "sensorList h p as \<Longrightarrow>
   remove_loop h n (pp, p) =
     Some (if takeWhile (\<lambda>a. \<not> hasId h n a) as = [] then pp
           else Some (last (takeWhile (\<lambda>a. \<not> hasId h n a) as)),
           find (hasId h n) as)"
proof (induction as arbitrary: p pp)
  case Nil
  then show ?case by (subst remove_loop.simps) simp
next
  case (Cons a as)
  then obtain s where p: "p = Some a" and s: "h a = Some s"
    and tl: "sensorList h (nextSensor s) as"
    by (auto simp: sensorList_Cons)
  from Cons.IH [OF tl, of "Some a"] p s show ?case
    by (subst remove_loop.simps) (simp add: hasId_Some)
qed

lemma find_first_split:
  "(\<forall>x \<in> set xs. \<not> P x) \<Longrightarrow> P c \<Longrightarrow>
   find P (xs @ c # ys) = Some c \<and> takeWhile (\<lambda>a. \<not> P a) (xs @ c # ys) = xs"
  by (induction xs) auto

lemma find_Some_split:
  "find P as = Some c \<Longrightarrow> \<exists>xs ys. as = xs @ c # ys \<and> (\<forall>x \<in> set xs. \<not> P x) \<and> P c"
proof (induction as)
  case Nil
  then show ?case by simp
next
  case (Cons a as)
  show ?case
  proof (cases "P a")
    case True
    with Cons.prems have "a = c" by simp
    with True have "a # as = [] @ c # as \<and> (\<forall>x \<in> set []. \<not> P x) \<and> P c" by simp
    then show ?thesis by blast
  next
    case False
    with Cons obtain xs ys where "as = xs @ c # ys" "\<forall>x \<in> set xs. \<not> P x" "P c" by auto
    with False have "a # as = (a # xs) @ c # ys \<and> (\<forall>x \<in> set (a # xs). \<not> P x) \<and> P c" by simp
    then show ?thesis by blast
  qed
qed

lemma find_None_all: "find P as = None \<longleftrightarrow> (\<forall>x \<in> set as. \<not> P x)"
  by (induction as) auto

lemma remove_absent:
  assumes "sensorList (heap st) (firstSensor st) as" and "\<forall>a \<in> set as. \<not> hasId (heap st) n a"
  shows "remove cfg n st = Some (False, st)"
proof -
  from assms(2) have "find (hasId (heap st) n) as = None" by (simp add: find_None_all)
  with remove_loop_find [OF assms(1), of n None] show ?thesis
    by (simp add: remove_def)
qed

lemma remove_repairs:
  assumes "pp \<noteq> Some c" and "nx \<noteq> Some c"
    and "st2 = (if USE_NOTIFY cfg \<and> Some c = lastSensor st1 then st1\<lparr>lastSensor := pp\<rparr> else st1)"
    and "st3 = (if USE_NOTIFY cfg \<and> Some c = firstPollSensor st2
                then st2\<lparr>firstPollSensor := nx\<rparr> else st2)"
    and "st4 = (if readingSensor st3 = Some c then st3\<lparr>readingSensor := nx\<rparr> else st3)"
  shows "heap st4 = heap st1 \<and> firstSensor st4 = firstSensor st1 \<and>
         readingSensor st4 = (if readingSensor st1 = Some c then nx else readingSensor st1) \<and>
         (USE_NOTIFY cfg \<longrightarrow> firstPollSensor st4 \<noteq> Some c \<and> lastSensor st4 \<noteq> Some c) \<and>
         lastReadCycle st4 = lastReadCycle st1 \<and>
         broadcastSensor_calls st4 = broadcastSensor_calls st1 \<and>
         configureInput_calls st4 = configureInput_calls st1 \<and>
         nSensors st4 = nSensors st1 \<and> eeAddress st4 = eeAddress st1 \<and>
         EEPROM st4 = EEPROM st1"
proof -
  have eq: "\<And>x. (Some c = x) = (x = Some c)" by auto
  show ?thesis
    using assms(1,2) unfolding assms(3-5) eq
    by (cases "lastSensor st1 = Some c"; cases "firstPollSensor st1 = Some c";
        cases "readingSensor st1 = Some c"; cases "USE_NOTIFY cfg"; simp)
qed

lemma remove_unfold:
  assumes "remove_loop (heap st) n (None, firstSensor st) = Some (pp, Some c)"
    and "heap st c = Some s"
    and "(if Some c = firstSensor st then Some (st\<lparr>firstSensor := nextSensor s\<rparr>)
          else (case pp of None \<Rightarrow> None
                | Some p \<Rightarrow> (case heap st p of None \<Rightarrow> None
                    | Some ps \<Rightarrow> Some (st\<lparr>heap := (heap st)(p \<mapsto> ps\<lparr>nextSensor := nextSensor s\<rparr>)\<rparr>))))
         = Some st1"
    and "st2 = (if USE_NOTIFY cfg \<and> Some c = lastSensor st1 then st1\<lparr>lastSensor := pp\<rparr> else st1)"
    and "st3 = (if USE_NOTIFY cfg \<and> Some c = firstPollSensor st2
                then st2\<lparr>firstPollSensor := nextSensor s\<rparr> else st2)"
    and "st4 = (if readingSensor st3 = Some c then st3\<lparr>readingSensor := nextSensor s\<rparr> else st3)"
  shows "remove cfg n st = Some (True, st4\<lparr>heap := (heap st4)(c := None)\<rparr>)"
  unfolding remove_def assms(1) assms(4-6) using assms(2,3)
  by (simp only: option.case prod.case Let_def)

lemma remove_found:
  assumes L: "sensorList (heap st) (firstSensor st) (xs @ c # ys)"
    and xs: "\<forall>x \<in> set xs. \<not> hasId (heap st) n x"
    and c: "hasId (heap st) n c"
    and s: "heap st c = Some s"
  shows "\<exists>st'. remove cfg n st = Some (True, st') \<and>
           sensorList (heap st') (firstSensor st') (xs @ ys) \<and>
           sensorList (heap st') (nextSensor s) ys \<and>
           heap st' c = None \<and>
           (\<forall>b. b \<noteq> c \<longrightarrow> map_option payload (heap st' b) = map_option payload (heap st b)) \<and>
           readingSensor st' =
             (if readingSensor st = Some c then nextSensor s else readingSensor st) \<and>
           (USE_NOTIFY cfg \<longrightarrow> firstPollSensor st' \<noteq> Some c \<and> lastSensor st' \<noteq> Some c) \<and>
           lastReadCycle st' = lastReadCycle st \<and>
           broadcastSensor_calls st' = broadcastSensor_calls st \<and>
           configureInput_calls st' = configureInput_calls st \<and>
           nSensors st' = nSensors st \<and> eeAddress st' = eeAddress st \<and> EEPROM st' = EEPROM st"
proof -
  let ?h = "heap st"
  let ?pp = "if xs = [] then None else Some (last xs)"
  from L have dist: "distinct (xs @ c # ys)" by (rule sensorList_distinct)
  from find_first_split [of xs "hasId ?h n" c ys] xs c
  have loop: "remove_loop ?h n (None, firstSensor st) = Some (?pp, Some c)"
    by (simp add: remove_loop_find [OF L])
  from L obtain r where px: "sensorPath ?h (firstSensor st) xs r" and lc: "sensorList ?h r (c # ys)"
    by (auto simp: sensorList_append)
  from lc s have r: "r = Some c" and lys: "sensorList ?h (nextSensor s) ys"
    by (simp_all add: sensorList_Cons)
  from dist have cys: "c \<notin> set ys" and cxs: "c \<notin> set xs" by simp_all
  have nc: "nextSensor s \<noteq> Some c"
  proof
    assume "nextSensor s = Some c"
    with lys obtain zs where "ys = c # zs" by (auto simp: sensorList_Some)
    with cys show False by simp
  qed
  have ppc: "?pp \<noteq> Some c"
    using cxs by (cases xs rule: rev_cases) auto
  define st1 where "st1 = (if xs = [] then st\<lparr>firstSensor := nextSensor s\<rparr>
     else st\<lparr>heap := ?h(last xs \<mapsto> (the (?h (last xs)))\<lparr>nextSensor := nextSensor s\<rparr>)\<rparr>)"
  define st2 where
    "st2 = (if USE_NOTIFY cfg \<and> Some c = lastSensor st1 then st1\<lparr>lastSensor := ?pp\<rparr> else st1)"
  define st3 where
    "st3 = (if USE_NOTIFY cfg \<and> Some c = firstPollSensor st2
            then st2\<lparr>firstPollSensor := nextSensor s\<rparr> else st2)"
  define st4 where
    "st4 = (if readingSensor st3 = Some c then st3\<lparr>readingSensor := nextSensor s\<rparr> else st3)"
  note rep = remove_repairs [OF ppc nc st2_def st3_def st4_def]
  have unlink: "(if Some c = firstSensor st then Some (st\<lparr>firstSensor := nextSensor s\<rparr>)
          else (case ?pp of None \<Rightarrow> None
                | Some p \<Rightarrow> (case ?h p of None \<Rightarrow> None
                    | Some ps \<Rightarrow> Some (st\<lparr>heap := ?h(p \<mapsto> ps\<lparr>nextSensor := nextSensor s\<rparr>)\<rparr>))))
         = Some st1 \<and> sensorList ((heap st1)(c := None)) (firstSensor st1) (xs @ ys) \<and>
         sensorList ((heap st1)(c := None)) (nextSensor s) ys \<and>
         (\<forall>b. b \<noteq> c \<longrightarrow> map_option payload (heap st1 b) = map_option payload (?h b)) \<and>
         readingSensor st1 = readingSensor st \<and> lastReadCycle st1 = lastReadCycle st \<and>
         broadcastSensor_calls st1 = broadcastSensor_calls st \<and>
         configureInput_calls st1 = configureInput_calls st \<and>
         nSensors st1 = nSensors st \<and> eeAddress st1 = eeAddress st \<and> EEPROM st1 = EEPROM st"
  proof (cases "xs = []")
    case True
    with px r have first: "firstSensor st = Some c" by simp
    from lys cys have "sensorList (?h(c := None)) (nextSensor s) ys"
      by (simp add: sensorList_upd_other)
    with True first show ?thesis by (simp add: st1_def)
  next
    case False
    then obtain xs' p where xs': "xs = xs' @ [p]" by (cases xs rule: rev_cases) auto
    with px r obtain ps where pxs': "sensorPath ?h (firstSensor st) xs' (Some p)"
      and ps: "?h p = Some ps" and nps: "nextSensor ps = Some c"
      by (auto simp: sensorPath_append split: option.splits)
    from dist xs' have pc: "p \<noteq> c" and pxs: "p \<notin> set xs'" and pys: "p \<notin> set ys"
      and cxs': "c \<notin> set xs'" by auto
    have nfirst: "Some c \<noteq> firstSensor st"
    proof
      assume "Some c = firstSensor st"
      with L have "hd (xs @ c # ys) = c"
        by (cases "xs @ c # ys") (auto simp: sensorList_Cons)
      with False cxs show False by (cases xs) auto
    qed
    let ?h1 = "?h(p \<mapsto> ps\<lparr>nextSensor := nextSensor s\<rparr>)"
    let ?h2 = "?h1(c := None)"
    have "sensorPath ?h2 (firstSensor st) xs' (Some p)"
      using pxs' pxs cxs' by (simp add: sensorPath_upd_other)
    moreover have "sensorList ?h2 (nextSensor s) ys"
      using lys pys cys by (simp add: sensorList_upd_other)
    then have "sensorList ?h2 (Some p) (p # ys)"
      using pc by (simp add: sensorList_Cons)
    ultimately have "sensorList ?h2 (firstSensor st) (xs' @ p # ys)"
      by (auto simp: sensorList_append)
    moreover have "sensorList ?h2 (nextSensor s) ys"
      using lys pys cys by (simp add: sensorList_upd_other)
    ultimately show ?thesis
      using False xs' nfirst ps
      by (simp add: st1_def payload_def)
  qed
  then have rm: "remove cfg n st = Some (True, st4\<lparr>heap := (heap st4)(c := None)\<rparr>)"
    using remove_unfold [OF loop s _ st2_def st3_def st4_def] by blast
  from unlink rep show ?thesis
    unfolding rm by simp
qed

lemmas list_eval = sensorList_def hasId_def hasPin_def

text \<open>
  C7. In a well-formed registry, when the cursor is on the descriptor that
  \<^verbatim>\<open>remove(n)\<close> finds, \<^verbatim>\<open>remove\<close> returns true, moves the cursor to the successor of that
  descriptor (\<^verbatim>\<open>NULL\<close>, that is idle, when it was the last) and frees it: afterwards the
  descriptor is not allocated, it is neither in the list nor under the cursor (nor, under
  \<^verbatim>\<open>USE_NOTIFY\<close>, referenced by \<^verbatim>\<open>firstPollSensor\<close> or \<^verbatim>\<open>lastSensor\<close>), and the cursor
  is idle or on an allocated descriptor of the list. Whenever \<^verbatim>\<open>checkAll\<close> runs next, it
  returns and the freed descriptor is still unallocated: the scan does not touch it.
\<close>

theorem remove_advances_cursor:
  assumes "sensorList (heap st) (firstSensor st) as"
    and "get n st = Some (Some c)"
    and "readingSensor st = Some c"
    and "heap st c = Some s"
  shows "\<exists>st'. remove cfg n st = Some (True, st') \<and>
           readingSensor st' = nextSensor s \<and> readingSensor st' \<noteq> Some c \<and>
           heap st' c = None \<and>
           sensorList (heap st') (firstSensor st') (remove1 c as) \<and> c \<notin> set (remove1 c as) \<and>
           (readingSensor st' = None \<or>
            (\<exists>d \<in> set (remove1 c as). readingSensor st' = Some d \<and> heap st' d \<noteq> None)) \<and>
           (USE_NOTIFY cfg \<longrightarrow> firstPollSensor st' \<noteq> Some c \<and> lastSensor st' \<noteq> Some c) \<and>
           (\<forall>thisTime rd. \<exists>k st''. checkAll cfg thisTime rd st' = Some (k, st'') \<and>
                                     heap st'' c = None)"
proof -
  from assms(1,2) have "find (hasId (heap st) n) as = Some c"
    by (simp add: get_def get_loop_find)
  then obtain xs ys where as: "as = xs @ c # ys"
    and xs: "\<forall>x \<in> set xs. \<not> hasId (heap st) n x" and c: "hasId (heap st) n c"
    by (blast dest: find_Some_split)
  from assms(1) have dist: "distinct as" by (rule sensorList_distinct)
  with as have rm1: "remove1 c as = xs @ ys"
    by (simp add: remove1_append)
  from assms(1) as have L: "sensorList (heap st) (firstSensor st) (xs @ c # ys)" by simp
  from remove_found [OF L xs c assms(4), of cfg] assms(3)
  obtain st' where rm: "remove cfg n st = Some (True, st')"
    and L': "sensorList (heap st') (firstSensor st') (xs @ ys)"
    and free: "heap st' c = None"
    and S': "sensorList (heap st') (nextSensor s) ys"
    and cur: "readingSensor st' = nextSensor s"
    and nfy: "USE_NOTIFY cfg \<longrightarrow> firstPollSensor st' \<noteq> Some c \<and> lastSensor st' \<noteq> Some c"
    by auto
  from L assms(4) have lys: "sensorList (heap st) (nextSensor s) ys"
    by (auto simp: sensorList_append sensorList_Cons)
  from dist as have cys: "c \<notin> set ys" and cxs: "c \<notin> set xs" by simp_all
  have live: "nextSensor s = None \<or> (\<exists>d \<in> set (xs @ ys). nextSensor s = Some d \<and> heap st' d \<noteq> None)"
  proof (cases "nextSensor s")
    case None
    then show ?thesis by simp
  next
    case (Some d)
    with lys obtain zs where "ys = d # zs" by (auto simp: sensorList_Some)
    then have d: "d \<in> set (xs @ ys)" by simp
    with L' have "heap st' d \<noteq> None" by (auto dest: sensorList_allocated)
    with d Some show ?thesis by blast
  qed
  have "nextSensor s \<noteq> Some c"
    using live cys cxs by auto
  moreover have "\<forall>thisTime rd. \<exists>k st''. checkAll cfg thisTime rd st' = Some (k, st'') \<and>
                                     heap st'' c = None"
  proof (intro allI)
    fix thisTime rd
    from S' cur have "sensorList (heap st') (readingSensor st') ys" by simp
    with L' obtain k st'' where run: "checkAll cfg thisTime rd st' = Some (k, st'')"
      using checkAll_returns by blast
    from this free have "heap st'' c = None" by (rule checkAll_keeps_free)
    with run show "\<exists>k st''. checkAll cfg thisTime rd st' = Some (k, st'') \<and> heap st'' c = None"
      by blast
  qed
  ultimately show ?thesis
    using rm L' free cur nfy live cys cxs unfolding rm1 by auto
qed

theorem remove_advances_cursor_witness:
  "sensorList (heap reg3) (firstSensor reg3) [3, 2, 1]
   \<and> get 9 reg3 = Some (Some 3) \<and> readingSensor reg3 = Some 3 \<and> heap reg3 3 = Some sensor9
   \<and> (\<exists>st'. remove cfg3 9 reg3 = Some (True, st') \<and> readingSensor st' = Some 2 \<and>
         heap st' 3 = None \<and> sensorList (heap st') (firstSensor st') [2, 1])"
proof -
  have l: "sensorList (heap reg3) (firstSensor reg3) [3, 2, 1]"
    by (simp add: example_defs list_eval)
  have g: "get 9 reg3 = Some (Some 3)"
    by (simp add: example_defs get_def get_loop.simps)
  have r: "readingSensor reg3 = Some 3" and h: "heap reg3 3 = Some sensor9"
    by (simp_all add: example_defs)
  from remove_advances_cursor [OF l g r h, of cfg3]
  obtain st' where "remove cfg3 9 reg3 = Some (True, st')"
    and "readingSensor st' = nextSensor sensor9" and "heap st' 3 = None"
    and "sensorList (heap st') (firstSensor st') (remove1 3 [3, 2, 1])"
    by blast
  then have "\<exists>st'. remove cfg3 9 reg3 = Some (True, st') \<and> readingSensor st' = Some 2 \<and>
         heap st' 3 = None \<and> sensorList (heap st') (firstSensor st') [2, 1]"
    by (simp add: sensor9_def)
  with l g r h show ?thesis by blast
qed

text \<open>
  C10. In a well-formed registry, a change notification for a pin sets the
  \<^verbatim>\<open>inputState\<close> of the first descriptor with that pin in list order (the descriptors are
  in the list most recently created first) to the notified level and changes nothing
  else: the other fields of that descriptor, every other descriptor (those bound to the
  same pin included) and the rest of the state are as before.
\<close>

theorem inputChangeCallback_first_match_only:
  assumes "sensorList (heap st) (firstSensor st) (xs @ a # ys)"
    and "\<forall>x \<in> set xs. \<not> hasPin (heap st) vpin x"
    and "heap st a = Some s" and "pin (data s) = vpin"
  shows "\<exists>st'. inputChangeCallback vpin val st = Some st' \<and>
           heap st' a = Some (s\<lparr>inputState := (val \<noteq> 0)\<rparr>) \<and>
           (\<forall>b. b \<noteq> a \<longrightarrow> heap st' b = heap st b) \<and>
           st'\<lparr>heap := heap st\<rparr> = st"
proof -
  from assms(3,4) have "hasPin (heap st) vpin a" by (simp add: hasPin_Some)
  with find_first_split [of xs "hasPin (heap st) vpin" a ys] assms(2)
  have "find (hasPin (heap st) vpin) (xs @ a # ys) = Some a" by simp
  with assms(1,3) show ?thesis
    by (simp add: inputChangeCallback_def inputChangeCallback_loop_find)
qed

theorem inputChangeCallback_first_match_only_witness:
  "sensorList (heap reg_pin50) (firstSensor reg_pin50) ([] @ 2 # [1])
   \<and> heap reg_pin50 2 = Some sensor11 \<and> pin (data sensor11) = 50
   \<and> hasPin (heap reg_pin50) 50 1
   \<and> (\<exists>st'. inputChangeCallback 50 1 reg_pin50 = Some st' \<and>
         heap st' 2 = Some (sensor11\<lparr>inputState := True\<rparr>) \<and>
         heap st' 1 = Some sensor10)"
proof -
  have l: "sensorList (heap reg_pin50) (firstSensor reg_pin50) ([] @ 2 # [1])"
    by (simp add: reg_pin50_def heap_pin50_def sensor10_def sensor11_def list_eval)
  have n: "\<forall>x \<in> set []. \<not> hasPin (heap reg_pin50) 50 x"
    by simp
  have h: "heap reg_pin50 2 = Some sensor11" and p: "pin (data sensor11) = 50"
    and o: "hasPin (heap reg_pin50) 50 1" and o': "heap reg_pin50 1 = Some sensor10"
    by (simp_all add: reg_pin50_def heap_pin50_def sensor10_def sensor11_def list_eval)
  from inputChangeCallback_first_match_only [OF l n h p, of 1]
  obtain st' where "inputChangeCallback 50 1 reg_pin50 = Some st'"
    and "heap st' 2 = Some (sensor11\<lparr>inputState := ((1::int) \<noteq> 0)\<rparr>)"
    and "\<forall>b. b \<noteq> 2 \<longrightarrow> heap st' b = heap reg_pin50 b"
    by blast
  with o' have "\<exists>st'. inputChangeCallback 50 1 reg_pin50 = Some st' \<and>
         heap st' 2 = Some (sensor11\<lparr>inputState := True\<rparr>) \<and>
         heap st' 1 = Some sensor10"
    by simp
  with l h p o show ?thesis by blast
qed

subsection \<open>The descriptors of a list\<close>

lemma descriptors_Nil [simp]: "descriptors h [] = []"
  by (simp add: descriptors_def)

lemma descriptors_Cons: "h a = Some s \<Longrightarrow> descriptors h (a # as) = s # descriptors h as"
  by (simp add: descriptors_def)

lemma descriptors_append: "descriptors h (xs @ ys) = descriptors h xs @ descriptors h ys"
  by (simp add: descriptors_def)

lemma payload_descriptors_cong:
  "\<forall>b \<in> set as. map_option payload (h' b) = map_option payload (h b) \<Longrightarrow>
   map payload (descriptors h' as) = map payload (descriptors h as)"
proof (induction as)
  case Nil
  then show ?case by simp
next
  case (Cons a as)
  then have a: "map_option payload (h' a) = map_option payload (h a)"
    and ih: "map payload (descriptors h' as) = map payload (descriptors h as)"
    by simp_all
  from a ih show ?case
    by (cases "h a"; cases "h' a") (simp_all add: descriptors_def)
qed

lemma hasId_descriptors:
  "hasId h n a \<Longrightarrow> a \<in> set as \<Longrightarrow> n \<in> set (map (snum \<circ> data) (descriptors h as))"
  by (induction as) (auto simp: descriptors_def hasId_def split: option.splits)

lemma filter_no_id:
  "\<forall>a \<in> set as. \<not> hasId h n a \<Longrightarrow>
   filter (\<lambda>s. snum (data s) \<noteq> n) (map payload (descriptors h as)) =
     map payload (descriptors h as)"
  by (induction as) (auto simp: descriptors_def hasId_def payload_def split: option.splits)

lemma payload_fields [simp]:
  "data (payload s) = data s" "active (payload s) = active s"
  "inputState (payload s) = inputState s" "latchDelay (payload s) = latchDelay s"
  "pollingRequired (payload s) = pollingRequired s" "nextSensor (payload s) = None"
  by (simp_all add: payload_def)

subsection \<open>\<^verbatim>\<open>create\<close> on a well-formed list\<close>

lemma create_after_remove:
  assumes valid: "\<not> (p > VPIN_MAX cfg \<and> p \<noteq> VPIN_NONE cfg)"
    and rm: "remove cfg n st = Some (found, st1)"
    and L1: "sensorList (heap st1) (firstSensor st1) as1"
    and fresh: "\<forall>h a. calloc h = Some a \<longrightarrow> h a = None"
  shows "(\<exists>r. create cfg calloc n p pu st = Some r) \<and>
         (\<forall>a st'. create cfg calloc n p pu st = Some (Some a, st') \<longrightarrow>
            firstSensor st' = Some a \<and> a \<notin> set as1 \<and>
            sensorList (heap st') (firstSensor st') (a # as1) \<and>
            (\<forall>b. b \<noteq> a \<longrightarrow> heap st' b = heap st1 b) \<and>
            heap st' a = Some \<lparr>data = \<lparr>snum = n, pin = p, pullUp = pu\<rparr>,
                             active = False, inputState = False,
                             latchDelay = minReadCount cfg,
                             pollingRequired =
                               (if p = VPIN_NONE cfg then False
                                else if USE_NOTIFY cfg \<and> hasCallback cfg p then False
                                else True),
                             nextSensor = firstSensor st1\<rparr> \<and>
            readingSensor st' = readingSensor st1 \<and>
            lastReadCycle st' = lastReadCycle st1 \<and>
            nSensors st' = nSensors st1 \<and> eeAddress st' = eeAddress st1 \<and>
            EEPROM st' = EEPROM st1)"
proof -
  let ?tt = "\<lparr>data = \<lparr>snum = n, pin = p, pullUp = pu\<rparr>,
                             active = False, inputState = False,
                             latchDelay = minReadCount cfg,
                             pollingRequired =
                               (if p = VPIN_NONE cfg then False
                                else if USE_NOTIFY cfg \<and> hasCallback cfg p then False
                                else True),
                             nextSensor = firstSensor st1\<rparr>"
  have cre: "create cfg calloc n p pu st =
      (case calloc (heap st1) of
         None \<Rightarrow> Some (None, st1)
       | Some a \<Rightarrow> Some (Some a, st1\<lparr>heap := (heap st1)(a \<mapsto> ?tt),
                            firstSensor := Some a,
                            configureInput_calls :=
                              (if p \<noteq> VPIN_NONE cfg
                               then configureInput_calls st1 @ [(p, pu)]
                               else configureInput_calls st1)\<rparr>))"
    using valid rm by (auto simp: create_def Let_def split: option.splits)
  show ?thesis
  proof (rule conjI; (intro allI impI)?)
    show "\<exists>r. create cfg calloc n p pu st = Some r"
      unfolding cre by (cases "calloc (heap st1)") simp_all
  next
    fix a st'
    assume cr: "create cfg calloc n p pu st = Some (Some a, st')"
    then have al: "calloc (heap st1) = Some a"
      and st': "st' = st1\<lparr>heap := (heap st1)(a \<mapsto> ?tt),
                            firstSensor := Some a,
                            configureInput_calls :=
                              (if p \<noteq> VPIN_NONE cfg
                               then configureInput_calls st1 @ [(p, pu)]
                               else configureInput_calls st1)\<rparr>"
      unfolding cre by (cases "calloc (heap st1)"; simp)+
    from al fresh have free: "heap st1 a = None" by blast
    with L1 have notin: "a \<notin> set as1" by (auto dest: sensorList_allocated)
    from L1 notin have "sensorList ((heap st1)(a \<mapsto> ?tt)) (firstSensor st1) as1"
      by (simp add: sensorList_upd_other)
    then have "sensorList ((heap st1)(a \<mapsto> ?tt)) (Some a) (a # as1)"
      by (simp add: sensorList_Cons)
    then show "firstSensor st' = Some a \<and> a \<notin> set as1 \<and>
            sensorList (heap st') (firstSensor st') (a # as1) \<and>
            (\<forall>b. b \<noteq> a \<longrightarrow> heap st' b = heap st1 b) \<and>
            heap st' a = Some ?tt \<and>
            readingSensor st' = readingSensor st1 \<and>
            lastReadCycle st' = lastReadCycle st1 \<and>
            nSensors st' = nSensors st1 \<and> eeAddress st' = eeAddress st1 \<and>
            EEPROM st' = EEPROM st1"
      using notin unfolding st' by simp
  qed
qed

lemma remove_on_list:
  assumes L: "sensorList (heap st) (firstSensor st) as"
    and ids: "distinct (map (snum \<circ> data) (descriptors (heap st) as))"
  shows "\<exists>found st1 as1. remove cfg n st = Some (found, st1) \<and>
           sensorList (heap st1) (firstSensor st1) as1 \<and>
           map payload (descriptors (heap st1) as1) =
             filter (\<lambda>s. snum (data s) \<noteq> n) (map payload (descriptors (heap st) as)) \<and>
           eeAddress st1 = eeAddress st \<and> EEPROM st1 = EEPROM st \<and> nSensors st1 = nSensors st \<and>
           (\<forall>b. heap st b = None \<longrightarrow> heap st1 b = None) \<and>
           length as1 \<le> length as"
proof (cases "find (hasId (heap st) n) as")
  case None
  then have no: "\<forall>a \<in> set as. \<not> hasId (heap st) n a" by (simp add: find_None_all)
  with L have "remove cfg n st = Some (False, st)" by (rule remove_absent)
  with L filter_no_id [OF no] show ?thesis by auto
next
  case (Some c)
  then obtain xs ys where as: "as = xs @ c # ys"
    and xs: "\<forall>x \<in> set xs. \<not> hasId (heap st) n x" and c: "hasId (heap st) n c"
    by (blast dest: find_Some_split)
  from c obtain s where s: "heap st c = Some s" and sn: "snum (data s) = n"
    by (auto simp: hasId_def split: option.splits)
  from L as have L': "sensorList (heap st) (firstSensor st) (xs @ c # ys)" by simp
  then have dist: "distinct (xs @ c # ys)" by (rule sensorList_distinct)
  from remove_found [OF L' xs c s, of cfg]
  obtain st1 where rm: "remove cfg n st = Some (True, st1)"
    and L1: "sensorList (heap st1) (firstSensor st1) (xs @ ys)"
    and pay: "\<forall>b. b \<noteq> c \<longrightarrow> map_option payload (heap st1 b) = map_option payload (heap st b)"
    and free: "heap st1 c = None"
    and rest: "eeAddress st1 = eeAddress st" "EEPROM st1 = EEPROM st" "nSensors st1 = nSensors st"
    by blast
  have ys: "\<forall>y \<in> set ys. \<not> hasId (heap st) n y"
  proof
    fix y assume y: "y \<in> set ys"
    show "\<not> hasId (heap st) n y"
    proof
      assume "hasId (heap st) n y"
      from this y have "n \<in> set (map (snum \<circ> data) (descriptors (heap st) ys))"
        by (rule hasId_descriptors)
      with ids as s sn show False
        by (simp add: descriptors_append descriptors_Cons)
    qed
  qed
  from dist pay have "map payload (descriptors (heap st1) (xs @ ys)) =
      map payload (descriptors (heap st) (xs @ ys))"
    by (intro payload_descriptors_cong) auto
  also have "\<dots> = filter (\<lambda>s. snum (data s) \<noteq> n) (map payload (descriptors (heap st) as))"
    using filter_no_id [OF xs] filter_no_id [OF ys] s sn as
    by (simp add: descriptors_append descriptors_Cons)
  finally have "map payload (descriptors (heap st1) (xs @ ys)) =
      filter (\<lambda>s. snum (data s) \<noteq> n) (map payload (descriptors (heap st) as))" .
  moreover have "\<forall>b. heap st b = None \<longrightarrow> heap st1 b = None"
  proof (intro allI impI)
    fix b assume b: "heap st b = None"
    show "heap st1 b = None"
    proof (cases "b = c")
      case True
      with free show ?thesis by simp
    next
      case False
      with pay b have "map_option payload (heap st1 b) = None" by simp
      then show ?thesis by simp
    qed
  qed
  ultimately show ?thesis
    using rm L1 rest as by auto
qed

lemma descriptors_cong:
  "\<forall>b \<in> set as. h' b = h b \<Longrightarrow> descriptors h' as = descriptors h as"
  by (induction as) (simp_all add: descriptors_def)

lemma payload_filter_ids:
  assumes "map payload ds = filter (\<lambda>s. snum (data s) \<noteq> n) xs"
  shows "\<forall>s \<in> set ds. snum (data s) \<noteq> n"
proof
  fix s assume "s \<in> set ds"
  then have "payload s \<in> set (map payload ds)" by simp
  with assms have "snum (data (payload s)) \<noteq> n" by simp
  then show "snum (data s) \<noteq> n" by simp
qed

lemma ids_payload: "map (snum \<circ> data) (map payload ds) = map (snum \<circ> data) ds"
  by simp

lemma calloc_small_fresh: "\<forall>h a. calloc_small h = Some a \<longrightarrow> h a = None"
  by (auto simp: calloc_small_def cell_free_def find_Some_iff)

text \<open>
  C6. In a well-formed registry in which each id occurs at most once, with an
  allocator that only hands out free addresses, \<^verbatim>\<open>create(n, p, pu)\<close> returns; and when
  it returns a descriptor, that descriptor is the head of the list, it carries the id,
  the pin and the pullUp supplied (and the initial runtime fields), the rest of the list
  are the previous descriptors without the one that had the id \<open>n\<close>, so exactly one
  descriptor has the id \<open>n\<close>, and each id still occurs at most once.
\<close>

theorem create_replaces_descriptor:
  assumes "sensorList (heap st) (firstSensor st) as"
    and "distinct (map (snum \<circ> data) (descriptors (heap st) as))"
    and "\<forall>h a. calloc h = Some a \<longrightarrow> h a = None"
  shows "(\<exists>r. create cfg calloc n p pu st = Some r) \<and>
         (\<forall>a st'. create cfg calloc n p pu st = Some (Some a, st') \<longrightarrow>
            firstSensor st' = Some a \<and>
            (\<exists>as'. sensorList (heap st') (firstSensor st') (a # as') \<and>
               map payload (descriptors (heap st') (a # as')) =
                 \<lparr>data = \<lparr>snum = n, pin = p, pullUp = pu\<rparr>,
                  active = False, inputState = False, latchDelay = minReadCount cfg,
                  pollingRequired =
                    (if p = VPIN_NONE cfg then False
                     else if USE_NOTIFY cfg \<and> hasCallback cfg p then False else True),
                  nextSensor = None\<rparr>
                 # filter (\<lambda>s. snum (data s) \<noteq> n) (map payload (descriptors (heap st) as)) \<and>
               length (filter (\<lambda>s. snum (data s) = n) (descriptors (heap st') (a # as'))) = 1 \<and>
               distinct (map (snum \<circ> data) (descriptors (heap st') (a # as')))))"
proof (cases "p > VPIN_MAX cfg \<and> p \<noteq> VPIN_NONE cfg")
  case True
  then have "create cfg calloc n p pu st = Some (None, st)"
    by (simp add: create_def)
  then show ?thesis by simp
next
  case False
  from remove_on_list [OF assms(1,2), of cfg n]
  obtain found st1 as1 where rm: "remove cfg n st = Some (found, st1)"
    and L1: "sensorList (heap st1) (firstSensor st1) as1"
    and pay: "map payload (descriptors (heap st1) as1) =
             filter (\<lambda>s. snum (data s) \<noteq> n) (map payload (descriptors (heap st) as))"
    by blast
  let ?tt = "\<lparr>data = \<lparr>snum = n, pin = p, pullUp = pu\<rparr>,
              active = False, inputState = False, latchDelay = minReadCount cfg,
              pollingRequired =
                (if p = VPIN_NONE cfg then False
                 else if USE_NOTIFY cfg \<and> hasCallback cfg p then False else True),
              nextSensor = firstSensor st1\<rparr>"
  note cr = create_after_remove [OF False rm L1 assms(3), of pu]
  show ?thesis
  proof (rule conjI; (intro allI impI)?)
    show "\<exists>r. create cfg calloc n p pu st = Some r" using cr by blast
  next
    fix a st'
    assume "create cfg calloc n p pu st = Some (Some a, st')"
    with cr have first: "firstSensor st' = Some a" and notin: "a \<notin> set as1"
      and L': "sensorList (heap st') (firstSensor st') (a # as1)"
      and same: "\<forall>b. b \<noteq> a \<longrightarrow> heap st' b = heap st1 b"
      and new: "heap st' a = Some ?tt"
      by blast+
    from notin same have "descriptors (heap st') as1 = descriptors (heap st1) as1"
      by (intro descriptors_cong) auto
    with new have ds: "descriptors (heap st') (a # as1) = ?tt # descriptors (heap st1) as1"
      by (simp add: descriptors_Cons)
    from payload_filter_ids [OF pay]
    have none: "filter (\<lambda>s. snum (data s) = n) (descriptors (heap st1) as1) = []"
      by (simp add: filter_empty_conv)
    have "map (snum \<circ> data) (descriptors (heap st1) as1) =
          map (snum \<circ> data) (map payload (descriptors (heap st1) as1))"
      by simp
    also have "\<dots> = filter (\<lambda>m. m \<noteq> n) (map (snum \<circ> data) (descriptors (heap st) as))"
      unfolding pay by (simp add: filter_map comp_def)
    finally have ids: "map (snum \<circ> data) (descriptors (heap st1) as1) =
        filter (\<lambda>m. m \<noteq> n) (map (snum \<circ> data) (descriptors (heap st) as))" .
    have "distinct (map (snum \<circ> data) (descriptors (heap st') (a # as1)))"
      unfolding ds using assms(2) ids by simp
    with first L' ds pay none
    have "sensorList (heap st') (firstSensor st') (a # as1) \<and>
               map payload (descriptors (heap st') (a # as1)) =
                 \<lparr>data = \<lparr>snum = n, pin = p, pullUp = pu\<rparr>,
                  active = False, inputState = False, latchDelay = minReadCount cfg,
                  pollingRequired =
                    (if p = VPIN_NONE cfg then False
                     else if USE_NOTIFY cfg \<and> hasCallback cfg p then False else True),
                  nextSensor = None\<rparr>
                 # filter (\<lambda>s. snum (data s) \<noteq> n) (map payload (descriptors (heap st) as)) \<and>
               length (filter (\<lambda>s. snum (data s) = n) (descriptors (heap st') (a # as1))) = 1 \<and>
               distinct (map (snum \<circ> data) (descriptors (heap st') (a # as1)))"
      by (simp add: payload_def)
    then have "\<exists>as'. sensorList (heap st') (firstSensor st') (a # as') \<and>
               map payload (descriptors (heap st') (a # as')) =
                 \<lparr>data = \<lparr>snum = n, pin = p, pullUp = pu\<rparr>,
                  active = False, inputState = False, latchDelay = minReadCount cfg,
                  pollingRequired =
                    (if p = VPIN_NONE cfg then False
                     else if USE_NOTIFY cfg \<and> hasCallback cfg p then False else True),
                  nextSensor = None\<rparr>
                 # filter (\<lambda>s. snum (data s) \<noteq> n) (map payload (descriptors (heap st) as)) \<and>
               length (filter (\<lambda>s. snum (data s) = n) (descriptors (heap st') (a # as'))) = 1 \<and>
               distinct (map (snum \<circ> data) (descriptors (heap st') (a # as')))"
      by (rule exI)
    with first show "firstSensor st' = Some a \<and>
            (\<exists>as'. sensorList (heap st') (firstSensor st') (a # as') \<and>
               map payload (descriptors (heap st') (a # as')) =
                 \<lparr>data = \<lparr>snum = n, pin = p, pullUp = pu\<rparr>,
                  active = False, inputState = False, latchDelay = minReadCount cfg,
                  pollingRequired =
                    (if p = VPIN_NONE cfg then False
                     else if USE_NOTIFY cfg \<and> hasCallback cfg p then False else True),
                  nextSensor = None\<rparr>
                 # filter (\<lambda>s. snum (data s) \<noteq> n) (map payload (descriptors (heap st) as)) \<and>
               length (filter (\<lambda>s. snum (data s) = n) (descriptors (heap st') (a # as'))) = 1 \<and>
               distinct (map (snum \<circ> data) (descriptors (heap st') (a # as'))))"
      by (rule conjI)
  qed
qed

lemmas registry_eval = create_def remove_def remove_loop.simps get_def get_loop.simps
  calloc_small_def calloc_fails_def cell_free_def descriptors_def Let_def

theorem create_replaces_descriptor_witness:
  "sensorList (heap reg3) (firstSensor reg3) [3, 2, 1]
   \<and> distinct (map (snum \<circ> data) (descriptors (heap reg3) [3, 2, 1]))
   \<and> (\<exists>a st' as'. create cfg3 calloc_small 8 45 0 reg3 = Some (Some a, st') \<and>
         firstSensor st' = Some a \<and>
         sensorList (heap st') (firstSensor st') (a # as') \<and>
         map (snum \<circ> data) (descriptors (heap st') (a # as')) = [8, 9, 7] \<and>
         map_option data (heap st' a) = Some \<lparr>snum = 8, pin = 45, pullUp = 0\<rparr> \<and>
         length (filter (\<lambda>s. snum (data s) = 8) (descriptors (heap st') (a # as'))) = 1)"
proof -
  have l: "sensorList (heap reg3) (firstSensor reg3) [3, 2, 1]"
    by (simp add: example_defs list_eval)
  have d: "distinct (map (snum \<circ> data) (descriptors (heap reg3) [3, 2, 1]))"
    by (simp add: example_defs descriptors_def)
  have ids: "map (snum \<circ> data) (map payload (descriptors (heap reg3) [3, 2, 1])) = [9, 8, 7]"
    by (simp add: example_defs descriptors_def)
  have "\<exists>a st'. create cfg3 calloc_small 8 45 0 reg3 = Some (Some a, st')"
    by (simp add: example_defs registry_eval)
  then obtain a st' where run: "create cfg3 calloc_small 8 45 0 reg3 = Some (Some a, st')"
    by blast
  note c = create_replaces_descriptor [OF l d calloc_small_fresh, of cfg3 8 45 0,
      THEN conjunct2, rule_format, OF run]
  from c have first: "firstSensor st' = Some a" by (rule conjunct1)
  from c [THEN conjunct2] obtain as' where big: "sensorList (heap st') (firstSensor st') (a # as') \<and>
        map payload (descriptors (heap st') (a # as')) =
          \<lparr>data = \<lparr>snum = 8, pin = 45, pullUp = 0\<rparr>,
           active = False, inputState = False, latchDelay = minReadCount cfg3,
           pollingRequired =
             (if 45 = VPIN_NONE cfg3 then False
              else if USE_NOTIFY cfg3 \<and> hasCallback cfg3 45 then False else True),
           nextSensor = None\<rparr>
          # filter (\<lambda>s. snum (data s) \<noteq> 8) (map payload (descriptors (heap reg3) [3, 2, 1])) \<and>
        length (filter (\<lambda>s. snum (data s) = 8) (descriptors (heap st') (a # as'))) = 1 \<and>
        distinct (map (snum \<circ> data) (descriptors (heap st') (a # as')))"
    by (rule exE)
  from big have l': "sensorList (heap st') (firstSensor st') (a # as')"
    by (rule conjunct1)
  from big have p: "map payload (descriptors (heap st') (a # as')) =
          \<lparr>data = \<lparr>snum = 8, pin = 45, pullUp = 0\<rparr>,
           active = False, inputState = False, latchDelay = minReadCount cfg3,
           pollingRequired =
             (if 45 = VPIN_NONE cfg3 then False
              else if USE_NOTIFY cfg3 \<and> hasCallback cfg3 45 then False else True),
           nextSensor = None\<rparr>
          # filter (\<lambda>s. snum (data s) \<noteq> 8) (map payload (descriptors (heap reg3) [3, 2, 1]))"
    by (rule conjunct2 [THEN conjunct1])
  from big have one:
    "length (filter (\<lambda>s. snum (data s) = 8) (descriptors (heap st') (a # as'))) = 1"
    by (rule conjunct2 [THEN conjunct2, THEN conjunct1])
  have "map (snum \<circ> data) (descriptors (heap st') (a # as')) =
        map (snum \<circ> data) (map payload (descriptors (heap st') (a # as')))"
    by simp
  also have "\<dots> = 8 # filter (\<lambda>m. m \<noteq> 8)
        (map (snum \<circ> data) (map payload (descriptors (heap reg3) [3, 2, 1])))"
    unfolding p by (simp add: filter_map comp_def)
  also have "\<dots> = [8, 9, 7]"
    unfolding ids by simp
  finally have i: "map (snum \<circ> data) (descriptors (heap st') (a # as')) = [8, 9, 7]" .
  from l' obtain s where s: "heap st' a = Some s"
    by (auto simp: sensorList_Cons)
  let ?new = "\<lparr>data = \<lparr>snum = 8, pin = 45, pullUp = 0\<rparr>,
           active = False, inputState = False, latchDelay = minReadCount cfg3,
           pollingRequired =
             (if 45 = VPIN_NONE cfg3 then False
              else if USE_NOTIFY cfg3 \<and> hasCallback cfg3 45 then False else True),
           nextSensor = None\<rparr>"
  from s p have eq: "payload s = ?new"
    by (simp add: descriptors_Cons)
  have "data s = data (payload s)" by simp
  also have "\<dots> = data ?new" by (simp only: eq)
  also have "\<dots> = \<lparr>snum = 8, pin = 45, pullUp = 0\<rparr>" by simp
  finally have "data s = \<lparr>snum = 8, pin = 45, pullUp = 0\<rparr>" .
  with s have dd: "map_option data (heap st' a) = Some \<lparr>snum = 8, pin = 45, pullUp = 0\<rparr>"
    by simp
  from run first l' i dd one
  have "\<exists>a st' as'. create cfg3 calloc_small 8 45 0 reg3 = Some (Some a, st') \<and>
         firstSensor st' = Some a \<and>
         sensorList (heap st') (firstSensor st') (a # as') \<and>
         map (snum \<circ> data) (descriptors (heap st') (a # as')) = [8, 9, 7] \<and>
         map_option data (heap st' a) = Some \<lparr>snum = 8, pin = 45, pullUp = 0\<rparr> \<and>
         length (filter (\<lambda>s. snum (data s) = 8) (descriptors (heap st') (a # as'))) = 1"
    by - (intro exI conjI, assumption+)
  with l d show ?thesis by (intro conjI)
qed

text \<open>
  C2 (as amended). In a well-formed registry, when \<^verbatim>\<open>create(n, p, pu)\<close> is called with
  an admissible pin and the allocation fails, \<^verbatim>\<open>create\<close> returns \<^verbatim>\<open>NULL\<close> and leaves the
  state as \<^verbatim>\<open>remove(n)\<close> left it, because the descriptor with the same id is removed
  before the allocation: the state is exactly as before the call when no descriptor had
  the id \<open>n\<close>; otherwise the descriptor that had it has been unlinked and freed, and the
  other descriptors are as before.
\<close>

theorem create_allocation_failure:
  assumes "sensorList (heap st) (firstSensor st) as"
    and "\<not> (p > VPIN_MAX cfg \<and> p \<noteq> VPIN_NONE cfg)"
    and "remove cfg n st = Some (found, st1)"
    and "calloc (heap st1) = None"
  shows "create cfg calloc n p pu st = Some (None, st1) \<and>
         (\<not> found \<longrightarrow> st1 = st) \<and>
         (found \<longrightarrow>
            (\<exists>c. get n st = Some (Some c) \<and> heap st1 c = None \<and>
                 sensorList (heap st1) (firstSensor st1) (remove1 c as) \<and>
                 (\<forall>b. b \<noteq> c \<longrightarrow>
                    map_option payload (heap st1 b) = map_option payload (heap st b))))"
proof (cases "find (hasId (heap st) n) as")
  case None
  then have "\<forall>a \<in> set as. \<not> hasId (heap st) n a" by (simp add: find_None_all)
  with assms(1) have "remove cfg n st = Some (False, st)" by (rule remove_absent)
  with assms(2,3,4) show ?thesis
    by (auto simp: create_def)
next
  case (Some c)
  then obtain xs ys where as: "as = xs @ c # ys"
    and xs: "\<forall>x \<in> set xs. \<not> hasId (heap st) n x" and c: "hasId (heap st) n c"
    by (blast dest: find_Some_split)
  from c obtain s where s: "heap st c = Some s"
    by (auto simp: hasId_def split: option.splits)
  from assms(1) as have L: "sensorList (heap st) (firstSensor st) (xs @ c # ys)" by simp
  from assms(1) have "distinct as" by (rule sensorList_distinct)
  with as have rm1: "remove1 c as = xs @ ys" by (simp add: remove1_append)
  from remove_found [OF L xs c s, of cfg] assms(3)
  have found: "found" and L1: "sensorList (heap st1) (firstSensor st1) (xs @ ys)"
    and free: "heap st1 c = None"
    and pay: "\<forall>b. b \<noteq> c \<longrightarrow> map_option payload (heap st1 b) = map_option payload (heap st b)"
    by auto
  from assms(1) Some have g: "get n st = Some (Some c)"
    by (simp add: get_def get_loop_find)
  from assms(2,3,4) have "create cfg calloc n p pu st = Some (None, st1)"
    by (auto simp: create_def)
  with found L1 free pay g rm1 show ?thesis by auto
qed

theorem create_allocation_failure_witness:
  "sensorList (heap reg3_idle) (firstSensor reg3_idle) [3, 2, 1]
   \<and> \<not> (42 > VPIN_MAX cfg3 \<and> 42 \<noteq> VPIN_NONE cfg3)
   \<and> (\<exists>found st1. remove cfg3 9 reg3_idle = Some (found, st1) \<and>
         calloc_fails (heap st1) = None \<and>
         create cfg3 calloc_fails 9 42 0 reg3_idle = Some (None, st1))
   \<and> (\<exists>found st1. remove cfg3 5 reg3_idle = Some (found, st1) \<and>
         calloc_fails (heap st1) = None \<and>
         create cfg3 calloc_fails 5 42 0 reg3_idle = Some (None, reg3_idle))"
proof -
  have l: "sensorList (heap reg3_idle) (firstSensor reg3_idle) [3, 2, 1]"
    by (simp add: example_defs list_eval)
  have v: "\<not> (42 > VPIN_MAX cfg3 \<and> 42 \<noteq> VPIN_NONE cfg3)"
    by (simp add: cfg3_def)
  have "\<exists>st1. remove cfg3 9 reg3_idle = Some (True, st1)"
    by (simp add: example_defs registry_eval)
  then obtain st1 where r9: "remove cfg3 9 reg3_idle = Some (True, st1)" by blast
  have f9: "calloc_fails (heap st1) = None" by (simp add: calloc_fails_def)
  from create_allocation_failure [where calloc = calloc_fails and pu = 0, OF l v r9 f9]
  have c9: "create cfg3 calloc_fails 9 42 0 reg3_idle = Some (None, st1)" by blast
  have "\<exists>st2. remove cfg3 5 reg3_idle = Some (False, st2)"
    by (simp add: example_defs registry_eval)
  then obtain st2 where r5: "remove cfg3 5 reg3_idle = Some (False, st2)" by blast
  have f5: "calloc_fails (heap st2) = None" by (simp add: calloc_fails_def)
  from create_allocation_failure [where calloc = calloc_fails and pu = 0, OF l v r5 f5]
  have c5: "create cfg3 calloc_fails 5 42 0 reg3_idle = Some (None, st2)" and "st2 = reg3_idle"
    by blast+
  with l v r9 f9 c9 r5 f5 show ?thesis by blast
qed

theorem create_allocation_failure_counterexample:
  "map_option fst (create cfg3 calloc_fails 9 42 0 reg3_idle) = Some None
   \<and> get 9 reg3_idle = Some (Some 3)
   \<and> Option.bind (map_option snd (create cfg3 calloc_fails 9 42 0 reg3_idle)) (get 9) = Some None
   \<and> map_option (firstSensor \<circ> snd) (create cfg3 calloc_fails 9 42 0 reg3_idle) = Some (Some 2)
   \<and> firstSensor reg3_idle = Some 3"
  by (simp add: example_defs registry_eval)

subsection \<open>\<^verbatim>\<open>store\<close> on a well-formed list\<close>

lemma readRecs_Suc:
  "readRecs ee start sz (Suc k) = ee start # readRecs ee (start + sz) sz k"
proof -
  have "[0..<Suc k] = 0 # map Suc [0..<k]"
    by (simp add: upt_conv_Cons map_Suc_upt del: upt_Suc)
  then show ?thesis
    by (simp add: readRecs_def comp_def add.assoc del: upt_Suc)
qed

lemma readRecs_0 [simp]: "readRecs ee start sz 0 = []"
  by (simp add: readRecs_def)

lemma readRecs_cong:
  "\<forall>p \<ge> start. ee' p = ee p \<Longrightarrow> readRecs ee' start sz k = readRecs ee start sz k"
  by (simp add: readRecs_def)

lemma length_descriptors:
  "sensorList h p as \<Longrightarrow> length (descriptors h as) = length as"
  by (induction as arbitrary: p) (auto simp: sensorList_Cons descriptors_Cons)

lemma store_loop_spec:
  "sensorList (heap st) p as \<Longrightarrow> 0 < sizeofData cfg \<Longrightarrow>
   \<exists>st'. store_loop cfg p st = Some st' \<and>
         st'\<lparr>EEPROM := EEPROM st, eeAddress := eeAddress st, nSensors := nSensors st\<rparr> = st \<and>
         eeAddress st' = eeAddress st + length as * sizeofData cfg \<and>
         nSensors st' = nSensors st + of_nat (length as) \<and>
         readRecs (EEPROM st') (eeAddress st) (sizeofData cfg) (length as) =
           map data (descriptors (heap st) as) \<and>
         (\<forall>q < eeAddress st. EEPROM st' q = EEPROM st q)"
proof (induction as arbitrary: p st)
  case Nil
  then show ?case by (subst store_loop.simps) simp
next
  case (Cons a as)
  then obtain s where p: "p = Some a" and s: "heap st a = Some s"
    and tl: "sensorList (heap st) (nextSensor s) as"
    by (auto simp: sensorList_Cons)
  let ?st1 = "st\<lparr>EEPROM := (EEPROM st)(eeAddress st := data s),
                  eeAddress := eeAddress st + sizeofData cfg,
                  nSensors := nSensors st + 1\<rparr>"
  have unf: "store_loop cfg p st = store_loop cfg (nextSensor s) ?st1"
    using p s by (subst store_loop.simps) simp
  from tl have "sensorList (heap ?st1) (nextSensor s) as" by simp
  from Cons.IH [OF this Cons.prems(2)]
  obtain st' where run: "store_loop cfg (nextSensor s) ?st1 = Some st'"
    and frame: "st'\<lparr>EEPROM := EEPROM ?st1, eeAddress := eeAddress ?st1,
                     nSensors := nSensors ?st1\<rparr> = ?st1"
    and ee: "eeAddress st' = eeAddress ?st1 + length as * sizeofData cfg"
    and ns: "nSensors st' = nSensors ?st1 + of_nat (length as)"
    and rd: "readRecs (EEPROM st') (eeAddress ?st1) (sizeofData cfg) (length as) =
               map data (descriptors (heap ?st1) as)"
    and low: "\<forall>q < eeAddress ?st1. EEPROM st' q = EEPROM ?st1 q"
    by blast
  from frame have "(st'\<lparr>EEPROM := EEPROM ?st1, eeAddress := eeAddress ?st1,
                     nSensors := nSensors ?st1\<rparr>)\<lparr>EEPROM := EEPROM st, eeAddress := eeAddress st,
                     nSensors := nSensors st\<rparr> = ?st1\<lparr>EEPROM := EEPROM st, eeAddress := eeAddress st,
                     nSensors := nSensors st\<rparr>"
    by (rule arg_cong)
  then have fr: "st'\<lparr>EEPROM := EEPROM st, eeAddress := eeAddress st, nSensors := nSensors st\<rparr> = st"
    by simp
  from low Cons.prems(2) have here: "EEPROM st' (eeAddress st) = data s"
    by simp
  from low Cons.prems(2) have below: "\<forall>q < eeAddress st. EEPROM st' q = EEPROM st q"
    by simp
  from rd here s have "readRecs (EEPROM st') (eeAddress st) (sizeofData cfg) (length (a # as)) =
           map data (descriptors (heap st) (a # as))"
    by (simp add: readRecs_Suc descriptors_Cons)
  with run fr ee ns below show ?case
    unfolding unf by simp
qed

lemma store_spec:
  assumes "sensorList (heap st) (firstSensor st) as" and "0 < sizeofData cfg"
  shows "\<exists>st'. store cfg st = Some st' \<and>
         st'\<lparr>EEPROM := EEPROM st, eeAddress := eeAddress st, nSensors := nSensors st\<rparr> = st \<and>
         nSensors st' = of_nat (length as) \<and>
         readRecs (EEPROM st') (eeAddress st) (sizeofData cfg) (length as) =
           map data (descriptors (heap st) as)"
proof -
  let ?st0 = "st\<lparr>nSensors := 0\<rparr>"
  from assms(1) have "sensorList (heap ?st0) (firstSensor st) as" by simp
  from store_loop_spec [OF this assms(2)]
  obtain st' where run: "store_loop cfg (firstSensor st) ?st0 = Some st'"
    and frame: "st'\<lparr>EEPROM := EEPROM ?st0, eeAddress := eeAddress ?st0,
                     nSensors := nSensors ?st0\<rparr> = ?st0"
    and ns: "nSensors st' = nSensors ?st0 + of_nat (length as)"
    and rd: "readRecs (EEPROM st') (eeAddress ?st0) (sizeofData cfg) (length as) =
               map data (descriptors (heap ?st0) as)"
    by blast
  from frame have "(st'\<lparr>EEPROM := EEPROM ?st0, eeAddress := eeAddress ?st0,
                     nSensors := nSensors ?st0\<rparr>)\<lparr>nSensors := nSensors st\<rparr> =
                   ?st0\<lparr>nSensors := nSensors st\<rparr>"
    by (rule arg_cong)
  then have "st'\<lparr>EEPROM := EEPROM st, eeAddress := eeAddress st, nSensors := nSensors st\<rparr> = st"
    by simp
  with run ns rd show ?thesis
    by (simp add: store_def)
qed

subsection \<open>\<^verbatim>\<open>load\<close> on a well-formed list\<close>

lemma create_new_id:
  assumes L: "sensorList (heap st) (firstSensor st) as"
    and no: "\<forall>b \<in> set as. \<not> hasId (heap st) (snum d) b"
    and valid: "\<not> (pin d > VPIN_MAX cfg \<and> pin d \<noteq> VPIN_NONE cfg)"
    and al: "calloc (heap st) = Some a"
    and free: "heap st a = None"
  shows "\<exists>st'. create cfg calloc (snum d) (pin d) (pullUp d) st = Some (Some a, st') \<and>
           heap st' = (heap st)(a \<mapsto> (initialSensor cfg d)\<lparr>nextSensor := firstSensor st\<rparr>) \<and>
           firstSensor st' = Some a \<and>
           sensorList (heap st') (firstSensor st') (a # as) \<and>
           a \<notin> set as \<and>
           eeAddress st' = eeAddress st \<and> EEPROM st' = EEPROM st \<and> nSensors st' = nSensors st"
proof -
  from L no have rm: "remove cfg (snum d) st = Some (False, st)" by (rule remove_absent)
  have d: "\<lparr>snum = snum d, pin = pin d, pullUp = pullUp d\<rparr> = d" by simp
  from free L have notin: "a \<notin> set as" by (auto dest: sensorList_allocated)
  let ?tt = "(initialSensor cfg d)\<lparr>nextSensor := firstSensor st\<rparr>"
  from L notin have "sensorList ((heap st)(a \<mapsto> ?tt)) (firstSensor st) as"
    by (simp add: sensorList_upd_other)
  then have "sensorList ((heap st)(a \<mapsto> ?tt)) (Some a) (a # as)"
    by (simp add: sensorList_Cons)
  with valid rm al notin show ?thesis
    by (auto simp: create_def Let_def initialSensor_def d)
qed

lemma load_loop_spec:
  assumes fresh: "\<forall>h a. calloc h = Some a \<longrightarrow> h a = None"
    and cap: "\<forall>h. finite (dom h) \<longrightarrow> card (dom h) < capacity \<longrightarrow> calloc h \<noteq> None"
  shows "sensorList (heap st) (firstSensor st) as \<Longrightarrow>
    finite (dom (heap st)) \<Longrightarrow> card (dom (heap st)) + k \<le> capacity \<Longrightarrow>
    ds = readRecs (EEPROM st) (eeAddress st) (sizeofData cfg) k \<Longrightarrow>
    \<forall>d \<in> set ds. \<not> (pin d > VPIN_MAX cfg \<and> pin d \<noteq> VPIN_NONE cfg) \<Longrightarrow>
    distinct (map snum ds) \<Longrightarrow>
    \<forall>b \<in> set as. \<forall>d \<in> set ds. \<not> hasId (heap st) (snum d) b \<Longrightarrow>
    \<exists>st' as'. load_loop cfg calloc k st = Some st' \<and>
       sensorList (heap st') (firstSensor st') (as' @ as) \<and> length as' = k \<and>
       map payload (descriptors (heap st') (as' @ as)) =
         rev (map (initialSensor cfg) ds) @ map payload (descriptors (heap st) as) \<and>
       nSensors st' = nSensors st \<and> EEPROM st' = EEPROM st"
proof (induction k arbitrary: st as ds)
  case 0
  then have "load_loop cfg calloc 0 st = Some st \<and>
       sensorList (heap st) (firstSensor st) ([] @ as) \<and> length ([] :: addr list) = 0 \<and>
       map payload (descriptors (heap st) ([] @ as)) =
         rev (map (initialSensor cfg) ds) @ map payload (descriptors (heap st) as) \<and>
       nSensors st = nSensors st \<and> EEPROM st = EEPROM st"
    by simp
  then show ?case by blast
next
  case (Suc k)
  let ?sz = "sizeofData cfg"
  let ?d = "EEPROM st (eeAddress st)"
  let ?ds' = "readRecs (EEPROM st) (eeAddress st + ?sz) ?sz k"
  from Suc.prems(4) have ds: "ds = ?d # ?ds'" by (simp add: readRecs_Suc)
  from Suc.prems(2,3) cap have "calloc (heap st) \<noteq> None" by simp
  then obtain a where al: "calloc (heap st) = Some a" by blast
  with fresh have free: "heap st a = None" by blast
  from Suc.prems(7) ds have no: "\<forall>b \<in> set as. \<not> hasId (heap st) (snum ?d) b" by simp
  from Suc.prems(5) ds have valid: "\<not> (pin ?d > VPIN_MAX cfg \<and> pin ?d \<noteq> VPIN_NONE cfg)"
    by simp
  let ?tt = "(initialSensor cfg ?d)\<lparr>nextSensor := firstSensor st\<rparr>"
  from create_new_id [where calloc = calloc and d = ?d, OF Suc.prems(1) no valid al free]
  obtain st1 where cr: "create cfg calloc (snum ?d) (pin ?d) (pullUp ?d) st = Some (Some a, st1)"
    and h1: "heap st1 = (heap st)(a \<mapsto> ?tt)"
    and L1: "sensorList (heap st1) (firstSensor st1) (a # as)"
    and notin: "a \<notin> set as"
    and ee1: "eeAddress st1 = eeAddress st" "EEPROM st1 = EEPROM st" "nSensors st1 = nSensors st"
    by blast
  let ?st2 = "st1\<lparr>eeAddress := eeAddress st1 + ?sz\<rparr>"
  have unf: "load_loop cfg calloc (Suc k) st = load_loop cfg calloc k ?st2"
    using cr by (simp add: Let_def)
  have L2: "sensorList (heap ?st2) (firstSensor ?st2) (a # as)" using L1 by simp
  have dom2: "dom (heap ?st2) = insert a (dom (heap st))" using h1 by auto
  with Suc.prems(2) have fin2: "finite (dom (heap ?st2))" by simp
  from free have "a \<notin> dom (heap st)" by auto
  with dom2 Suc.prems(2,3) have card2: "card (dom (heap ?st2)) + k \<le> capacity" by simp
  have rd2: "?ds' = readRecs (EEPROM ?st2) (eeAddress ?st2) ?sz k" using ee1 by simp
  from Suc.prems(5) ds
  have pins2: "\<forall>d \<in> set ?ds'. \<not> (pin d > VPIN_MAX cfg \<and> pin d \<noteq> VPIN_NONE cfg)" by simp
  from Suc.prems(6) ds have dist2: "distinct (map snum ?ds')" and dnew: "snum ?d \<notin> snum ` set ?ds'"
    by simp_all
  have ids2: "\<forall>b \<in> set (a # as). \<forall>d \<in> set ?ds'. \<not> hasId (heap ?st2) (snum d) b"
  proof (intro ballI)
    fix b d assume b: "b \<in> set (a # as)" and d: "d \<in> set ?ds'"
    show "\<not> hasId (heap ?st2) (snum d) b"
    proof (cases "b = a")
      case True
      with h1 dnew d show ?thesis by (auto simp: hasId_def initialSensor_def)
    next
      case False
      with b have "b \<in> set as" by simp
      with Suc.prems(7) ds d have "\<not> hasId (heap st) (snum d) b" by simp
      with False h1 show ?thesis by (simp add: hasId_def)
    qed
  qed
  from Suc.IH [OF L2 fin2 card2 rd2 pins2 dist2 ids2]
  obtain st' as' where run: "load_loop cfg calloc k ?st2 = Some st'"
    and L': "sensorList (heap st') (firstSensor st') (as' @ a # as)"
    and len: "length as' = k"
    and pay: "map payload (descriptors (heap st') (as' @ a # as)) =
         rev (map (initialSensor cfg) ?ds') @ map payload (descriptors (heap ?st2) (a # as))"
    and rest: "nSensors st' = nSensors ?st2" "EEPROM st' = EEPROM ?st2"
    by blast
  have "descriptors (heap st1) as = descriptors (heap st) as"
    using notin h1 by (intro descriptors_cong) auto
  then have "map payload (descriptors (heap ?st2) (a # as)) =
      initialSensor cfg ?d # map payload (descriptors (heap st) as)"
    using h1 by (simp add: descriptors_Cons payload_def initialSensor_def)
  with pay ds have pay': "map payload (descriptors (heap st') ((as' @ [a]) @ as)) =
         rev (map (initialSensor cfg) ds) @ map payload (descriptors (heap st) as)"
    by simp
  from L' have L'': "sensorList (heap st') (firstSensor st') ((as' @ [a]) @ as)" by simp
  from len have len': "length (as' @ [a]) = Suc k" by simp
  from run unf L'' len' pay' rest ee1
  have "load_loop cfg calloc (Suc k) st = Some st' \<and>
       sensorList (heap st') (firstSensor st') ((as' @ [a]) @ as) \<and> length (as' @ [a]) = Suc k \<and>
       map payload (descriptors (heap st') ((as' @ [a]) @ as)) =
         rev (map (initialSensor cfg) ds) @ map payload (descriptors (heap st) as) \<and>
       nSensors st' = nSensors st \<and> EEPROM st' = EEPROM st"
    by simp
  then show ?case by blast
qed

lemma calloc_small_capacity:
  assumes "finite (dom h)" and "card (dom h) < 8"
  shows "calloc_small h \<noteq> None"
proof
  assume "calloc_small h = None"
  then have "\<forall>a \<in> set [1, 2, 3, 4, 5, 6, 7, 8 :: nat]. \<not> cell_free h a"
    unfolding calloc_small_def find_None_iff by blast
  then have "\<forall>a \<in> set [1, 2, 3, 4, 5, 6, 7, 8 :: nat]. h a \<noteq> None"
    unfolding cell_free_def .
  then have "{1, 2, 3, 4, 5, 6, 7, 8 :: nat} \<subseteq> dom h"
    by auto
  with assms(1) have "card {1, 2, 3, 4, 5, 6, 7, 8 :: nat} \<le> card (dom h)"
    by (rule card_mono)
  with assms(2) show False by simp
qed

text \<open>
  C8. For a well-formed registry with distinct ids, admissible pins and fewer than
  \<open>2 ^ 16\<close> descriptors (the header is a \<^verbatim>\<open>uint16\<close>), records of positive size and an
  allocator that hands out free addresses and can hold the registry: \<^verbatim>\<open>store\<close>
  returns and the header count is the number of descriptors; after a registry reset,
  \<^verbatim>\<open>load\<close> returns with a well-formed registry of as many descriptors, whose
  (id, pin, pullUp) triples are those of the original registry in reverse order (so
  the sets of triples are equal), each with the runtime fields at their initial values
  (not active, raw sample false, pending count at the threshold).
\<close>

theorem store_reset_load_round_trip:
  assumes "sensorList (heap st) (firstSensor st) as"
    and "distinct (map (snum \<circ> data) (descriptors (heap st) as))"
    and "\<forall>s \<in> set (descriptors (heap st) as).
           \<not> (pin (data s) > VPIN_MAX cfg \<and> pin (data s) \<noteq> VPIN_NONE cfg)"
    and "length as < 2 ^ 16"
    and "0 < sizeofData cfg"
    and "\<forall>h a. calloc h = Some a \<longrightarrow> h a = None"
    and "\<forall>h. finite (dom h) \<longrightarrow> card (dom h) < length as \<longrightarrow> calloc h \<noteq> None"
  shows "\<exists>st1 st2 as'.
           store cfg st = Some st1 \<and> unat (nSensors st1) = length as \<and>
           load cfg calloc (resetRegistry (eeAddress st) st1) = Some st2 \<and>
           sensorList (heap st2) (firstSensor st2) as' \<and> length as' = length as \<and>
           map data (descriptors (heap st2) as') = rev (map data (descriptors (heap st) as)) \<and>
           set (map data (descriptors (heap st2) as')) = set (map data (descriptors (heap st) as)) \<and>
           (\<forall>s \<in> set (descriptors (heap st2) as').
              \<not> active s \<and> \<not> inputState s \<and> latchDelay s = minReadCount cfg)"
proof -
  let ?ds = "map data (descriptors (heap st) as)"
  from store_spec [OF assms(1,5)]
  obtain st1 where st: "store cfg st = Some st1"
    and ns: "nSensors st1 = of_nat (length as)"
    and rd: "readRecs (EEPROM st1) (eeAddress st) (sizeofData cfg) (length as) = ?ds"
    by blast
  from assms(4) have un: "unat (nSensors st1) = length as"
    unfolding ns by (simp add: unat_of_nat)
  let ?st0 = "resetRegistry (eeAddress st) st1"
  have L0: "sensorList (heap ?st0) (firstSensor ?st0) []"
    by (simp add: resetRegistry_def)
  have fin0: "finite (dom (heap ?st0))" and card0: "card (dom (heap ?st0)) + length as \<le> length as"
    by (simp_all add: resetRegistry_def)
  have rd0: "?ds = readRecs (EEPROM ?st0) (eeAddress ?st0) (sizeofData cfg) (length as)"
    using rd by (simp add: resetRegistry_def)
  have pins0: "\<forall>d \<in> set ?ds. \<not> (pin d > VPIN_MAX cfg \<and> pin d \<noteq> VPIN_NONE cfg)"
    using assms(3) by simp
  have dist0: "distinct (map snum ?ds)"
    using assms(2) by (simp add: comp_def)
  have ids0: "\<forall>b \<in> set []. \<forall>d \<in> set ?ds. \<not> hasId (heap ?st0) (snum d) b"
    by simp
  from load_loop_spec [OF assms(6,7) L0 fin0 card0 rd0 pins0 dist0 ids0]
  obtain st2 as' where run: "load_loop cfg calloc (length as) ?st0 = Some st2"
    and L2: "sensorList (heap st2) (firstSensor st2) (as' @ [])"
    and len: "length as' = length as"
    and pay: "map payload (descriptors (heap st2) (as' @ [])) =
         rev (map (initialSensor cfg) ?ds) @ map payload (descriptors (heap ?st0) [])"
    by blast
  from pay have pay': "map payload (descriptors (heap st2) as') = rev (map (initialSensor cfg) ?ds)"
    by simp
  have ld: "load cfg calloc ?st0 = Some st2"
    using run un by (simp add: load_def resetRegistry_def)
  have "map data (descriptors (heap st2) as') = map data (map payload (descriptors (heap st2) as'))"
    by simp
  also have "\<dots> = rev ?ds"
    unfolding pay' by (simp add: rev_map comp_def initialSensor_def)
  finally have dat: "map data (descriptors (heap st2) as') = rev ?ds" .
  then have sets: "set (map data (descriptors (heap st2) as')) = set ?ds"
    by simp
  have init: "\<forall>s \<in> set (descriptors (heap st2) as').
              \<not> active s \<and> \<not> inputState s \<and> latchDelay s = minReadCount cfg"
  proof
    fix s assume "s \<in> set (descriptors (heap st2) as')"
    then have "payload s \<in> set (map payload (descriptors (heap st2) as'))" by simp
    then obtain d where "payload s = initialSensor cfg d"
      unfolding pay' by auto
    then have "active (payload s) = False \<and> inputState (payload s) = False \<and>
               latchDelay (payload s) = minReadCount cfg"
      by (simp add: initialSensor_def)
    then show "\<not> active s \<and> \<not> inputState s \<and> latchDelay s = minReadCount cfg"
      by simp
  qed
  from L2 have L2': "sensorList (heap st2) (firstSensor st2) as'" by simp
  from st un ld L2' len dat sets init show ?thesis
    by - (intro exI conjI, assumption+)
qed


theorem store_reset_load_round_trip_witness:
  "sensorList (heap reg3_idle) (firstSensor reg3_idle) [3, 2, 1]
   \<and> distinct (map (snum \<circ> data) (descriptors (heap reg3_idle) [3, 2, 1]))
   \<and> length [3, 2, 1 :: addr] < 2 ^ 16 \<and> 0 < sizeofData cfg3
   \<and> (\<exists>st1 st2 as'.
         store cfg3 reg3_idle = Some st1 \<and> unat (nSensors st1) = 3 \<and>
         load cfg3 calloc_small (resetRegistry (eeAddress reg3_idle) st1) = Some st2 \<and>
         sensorList (heap st2) (firstSensor st2) as' \<and> length as' = 3 \<and>
         map data (descriptors (heap st2) as') =
           [\<lparr>snum = 7, pin = 40, pullUp = 1\<rparr>, \<lparr>snum = 8, pin = 41, pullUp = 1\<rparr>,
            \<lparr>snum = 9, pin = 42, pullUp = 0\<rparr>])"
proof -
  have l: "sensorList (heap reg3_idle) (firstSensor reg3_idle) [3, 2, 1]"
    by (simp add: example_defs list_eval)
  have d: "distinct (map (snum \<circ> data) (descriptors (heap reg3_idle) [3, 2, 1]))"
    by (simp add: example_defs descriptors_def)
  have p: "\<forall>s \<in> set (descriptors (heap reg3_idle) [3, 2, 1]).
             \<not> (pin (data s) > VPIN_MAX cfg3 \<and> pin (data s) \<noteq> VPIN_NONE cfg3)"
    by (simp add: example_defs descriptors_def)
  have n: "length [3, 2, 1 :: addr] < 2 ^ 16" and z: "0 < sizeofData cfg3"
    by (simp_all add: cfg3_def)
  have c: "\<forall>h. finite (dom h) \<longrightarrow> card (dom h) < length [3, 2, 1 :: addr] \<longrightarrow>
             calloc_small h \<noteq> None"
    by (simp add: calloc_small_capacity)
  have ds: "rev (map data (descriptors (heap reg3_idle) [3, 2, 1])) =
           [\<lparr>snum = 7, pin = 40, pullUp = 1\<rparr>, \<lparr>snum = 8, pin = 41, pullUp = 1\<rparr>,
            \<lparr>snum = 9, pin = 42, pullUp = 0\<rparr>]"
    by (simp add: example_defs descriptors_def)
  from store_reset_load_round_trip [OF l d p n z calloc_small_fresh c]
  obtain st1 st2 as' where "store cfg3 reg3_idle = Some st1"
    and "unat (nSensors st1) = length [3, 2, 1 :: addr]"
    and "load cfg3 calloc_small (resetRegistry (eeAddress reg3_idle) st1) = Some st2"
    and "sensorList (heap st2) (firstSensor st2) as'"
    and "length as' = length [3, 2, 1 :: addr]"
    and "map data (descriptors (heap st2) as') =
           rev (map data (descriptors (heap reg3_idle) [3, 2, 1]))"
    by blast
  then have "store cfg3 reg3_idle = Some st1 \<and> unat (nSensors st1) = 3 \<and>
         load cfg3 calloc_small (resetRegistry (eeAddress reg3_idle) st1) = Some st2 \<and>
         sensorList (heap st2) (firstSensor st2) as' \<and> length as' = 3 \<and>
         map data (descriptors (heap st2) as') =
           [\<lparr>snum = 7, pin = 40, pullUp = 1\<rparr>, \<lparr>snum = 8, pin = 41, pullUp = 1\<rparr>,
            \<lparr>snum = 9, pin = 42, pullUp = 0\<rparr>]"
    unfolding ds by simp
  then have "\<exists>st1 st2 as'.
         store cfg3 reg3_idle = Some st1 \<and> unat (nSensors st1) = 3 \<and>
         load cfg3 calloc_small (resetRegistry (eeAddress reg3_idle) st1) = Some st2 \<and>
         sensorList (heap st2) (firstSensor st2) as' \<and> length as' = 3 \<and>
         map data (descriptors (heap st2) as') =
           [\<lparr>snum = 7, pin = 40, pullUp = 1\<rparr>, \<lparr>snum = 8, pin = 41, pullUp = 1\<rparr>,
            \<lparr>snum = 9, pin = 42, pullUp = 0\<rparr>]"
    by - (intro exI, assumption)
  with l d n z show ?thesis by (intro conjI)
qed

end
